theory Spec2Isabelle
  imports Main "HOL-Library.Log_Nat"
begin

section \<open>Python values the program computes with\<close>

subsection \<open>Floats\<close>

text \<open>
  A Python \<^verbatim>\<open>float\<close> is an IEEE 754 binary64 number. A finite one is \<open>Fin m e\<close>, the
  number \<open>m * 2 ^ e\<close>, kept normalised (\<open>m\<close> odd, or \<open>Fin 0 0\<close> for zero, so that equal
  numbers are equal terms); negative zero is not told apart from zero, which no
  comparison of the program can observe except through a printed sign.
\<close>

datatype pyfloat = Fin int int | PInf | NInf | NaN

function nrm :: "int \<Rightarrow> int \<Rightarrow> int \<times> int" where
  "nrm m e = (if m = 0 then (0, 0) else if even m then nrm (m div 2) (e + 1) else (m, e))"
  by pat_completeness auto
termination
  by (relation "measure (\<lambda>(m, e). nat \<bar>m\<bar>)") auto

text \<open>
  \<open>round_half_even num den\<close> is the integer nearest to \<open>num / den\<close> (for \<open>0 < den\<close>), the
  even one of the two when both are as near. \<open>binary_exponent a d\<close> is the \<open>E\<close> with
  \<open>2 ^ E \<le> a / d < 2 ^ (E + 1)\<close> (for \<open>0 < a\<close>, \<open>0 < d\<close>).
\<close>

definition round_half_even :: "int \<Rightarrow> int \<Rightarrow> int" where
  "round_half_even num den =
     (let q = num div den; r = num mod den
      in if 2 * r < den then q
         else if den < 2 * r then q + 1
         else if even q then q else q + 1)"

definition binary_exponent :: "int \<Rightarrow> int \<Rightarrow> int" where
  "binary_exponent a d =
     (let s = bitlen a - bitlen d
      in if d * 2 ^ nat s \<le> a * 2 ^ nat (- s) then s else s - 1)"

text \<open>
  \<open>round_q n d\<close> (for \<open>0 < d\<close>) is the binary64 number nearest to the rational \<open>n / d\<close>,
  ties to even: \<open>e\<close> is the exponent of the last place (53 significant bits, and not
  below the subnormal spacing \<open>2 ^ - 1074\<close>), \<open>m\<close> the rounded count of last places; a
  result of \<open>2 ^ 1024\<close> or more is an infinity.
\<close>

definition round_q :: "int \<Rightarrow> int \<Rightarrow> pyfloat" where
  "round_q n d =
     (if n = 0 then Fin 0 0
      else
        let e = max (binary_exponent \<bar>n\<bar> d - 52) (- 1074);
            m = round_half_even (\<bar>n\<bar> * 2 ^ nat (- e)) (d * 2 ^ nat e)
        in if 0 \<le> e \<and> 2 ^ 1024 \<le> m * 2 ^ nat e then (if n < 0 then NInf else PInf)
           else (case nrm m e of (m', e') \<Rightarrow> Fin (if n < 0 then - m' else m') e'))"

text \<open>\<^verbatim>\<open>x - y\<close>: the exact difference of two finite floats, rounded once.\<close>

fun fsub :: "pyfloat \<Rightarrow> pyfloat \<Rightarrow> pyfloat" where
  "fsub NaN y = NaN"
| "fsub x NaN = NaN"
| "fsub PInf PInf = NaN"
| "fsub NInf NInf = NaN"
| "fsub PInf y = PInf"
| "fsub NInf y = NInf"
| "fsub x PInf = NInf"
| "fsub x NInf = PInf"
| "fsub (Fin m1 e1) (Fin m2 e2) =
     (let e = min e1 e2;
          n = m1 * 2 ^ nat (e1 - e) - m2 * 2 ^ nat (e2 - e)
      in if 0 \<le> e then round_q (n * 2 ^ nat e) 1 else round_q n (2 ^ nat (- e)))"

text \<open>\<^verbatim>\<open>abs(x)\<close>.\<close>

fun fabs :: "pyfloat \<Rightarrow> pyfloat" where
  "fabs (Fin m e) = Fin \<bar>m\<bar> e"
| "fabs PInf = PInf"
| "fabs NInf = PInf"
| "fabs NaN = NaN"

text \<open>\<^verbatim>\<open>x <= y\<close>: false as soon as one side is not a number.\<close>

fun fle :: "pyfloat \<Rightarrow> pyfloat \<Rightarrow> bool" where
  "fle NaN y = False"
| "fle x NaN = False"
| "fle NInf y = True"
| "fle x PInf = True"
| "fle PInf y = False"
| "fle x NInf = False"
| "fle (Fin m1 e1) (Fin m2 e2) =
     (let e = min e1 e2 in m1 * 2 ^ nat (e1 - e) \<le> m2 * 2 ^ nat (e2 - e))"

text \<open>\<^verbatim>\<open>x >= y\<close> is \<^verbatim>\<open>y <= x\<close>.\<close>

definition fge :: "pyfloat \<Rightarrow> pyfloat \<Rightarrow> bool" where
  "fge x y = fle y x"

subsection \<open>Formatting a float with two decimals\<close>

function digits :: "int \<Rightarrow> string" where
  "digits n = (if n < 10 then [char_of (48 + n)] else digits (n div 10) @ [char_of (48 + n mod 10)])"
  by pat_completeness auto
termination
  by (relation "measure (\<lambda>n. nat n)") auto

text \<open>
  \<^verbatim>\<open>f"{x:.2f}"\<close>: the exact value of the float, rounded to a whole number of hundredths
  (ties to even), printed with its sign, its integer part and two decimals.
\<close>

definition hundredths :: "int \<Rightarrow> int \<Rightarrow> int" where
  "hundredths m e = round_half_even (\<bar>m\<bar> * 100 * 2 ^ nat e) (2 ^ nat (- e))"

definition fmt2f :: "pyfloat \<Rightarrow> string" where
  "fmt2f x =
     (case x of
        PInf \<Rightarrow> ''inf''
      | NInf \<Rightarrow> ''-inf''
      | NaN \<Rightarrow> ''nan''
      | Fin m e \<Rightarrow>
          (let h = hundredths m e
           in (if m < 0 then ''-'' else '''') @ digits (h div 100) @ ''.''
                @ [char_of (48 + h mod 100 div 10), char_of (48 + h mod 10)]))"

subsection \<open>Strings\<close>

text \<open>
  A \<^verbatim>\<open>str\<close> is the list of its characters, each a code point below 256.
  \<^verbatim>\<open>str.strip()\<close> removes the leading and trailing whitespace (the code points for which
  \<^verbatim>\<open>str.isspace\<close> holds); \<^verbatim>\<open>str.lower()\<close> maps the upper-case letters of that range to
  their lower-case ones.
\<close>

definition py_isspace :: "char \<Rightarrow> bool" where
  "py_isspace c = (of_char c \<in> {9, 10, 11, 12, 13, 28, 29, 30, 31, 32, 133, 160 :: nat})"

definition strip :: "string \<Rightarrow> string" where
  "strip s = rev (dropWhile py_isspace (rev (dropWhile py_isspace s)))"

definition lower_char :: "char \<Rightarrow> char" where
  "lower_char c =
     (let n = (of_char c :: nat)
      in if (65 \<le> n \<and> n \<le> 90) \<or> (192 \<le> n \<and> n \<le> 222 \<and> n \<noteq> 215)
         then char_of (n + 32) else c)"

definition lower :: "string \<Rightarrow> string" where
  "lower s = map lower_char s"

section \<open>The similarity ratio of \<^verbatim>\<open>difflib.SequenceMatcher\<close>\<close>

text \<open>
  \<^verbatim>\<open>compare\<close> calls \<^verbatim>\<open>SequenceMatcher(None, a, b).ratio()\<close> of the standard library, with no
  junk predicate and with the default \<^verbatim>\<open>autojunk\<close>. The definitions follow that class,
  method by method.

  \<^verbatim>\<open>__chain_b\<close> builds \<^verbatim>\<open>b2j\<close>, which maps a character to the ascending positions where it
  stands in \<open>b\<close>; when \<open>b\<close> has 200 characters or more, a character standing at more than
  \<open>len(b) // 100 + 1\<close> positions is "popular" and loses its entry. \<open>b2j b c\<close> is
  \<^verbatim>\<open>b2j.get(c, [])\<close>.
\<close>

definition popular :: "string \<Rightarrow> char \<Rightarrow> bool" where
  "popular b c = (200 \<le> length b \<and> length b div 100 + 1 < length (filter (\<lambda>x. x = c) b))"

definition b2j :: "string \<Rightarrow> char \<Rightarrow> nat list" where
  "b2j b c = (if popular b c then [] else filter (\<lambda>j. b ! j = c) [0..<length b])"

text \<open>
  \<^verbatim>\<open>find_longest_match(alo, ahi, blo, bhi)\<close>. A match is the triple
  \<open>(besti, bestj, bestsize)\<close>. \<open>j2len\<close> maps \<open>j\<close> to the length of the longest match that ends
  with \<open>a[i-1]\<close> and \<open>b[j]\<close>; a missing key reads as 0 (\<^verbatim>\<open>j2len.get(j-1, 0)\<close>), and \<open>j - 1\<close>
  is never a key when \<open>j = 0\<close>. \<open>scan_row\<close> is the inner loop over \<^verbatim>\<open>b2j.get(a[i], [])\<close>,
  with its \<^verbatim>\<open>continue\<close> and its \<^verbatim>\<open>break\<close>; \<open>scan_rows\<close> is the outer loop over
  \<^verbatim>\<open>range(alo, ahi)\<close>.
\<close>

type_synonym match = "nat \<times> nat \<times> nat"

fun scan_row ::
  "nat \<Rightarrow> (nat \<Rightarrow> nat) \<Rightarrow> nat \<Rightarrow> nat \<Rightarrow> nat list \<Rightarrow> (nat \<Rightarrow> nat) \<times> match \<Rightarrow> (nat \<Rightarrow> nat) \<times> match"
where
  "scan_row i j2len blo bhi [] st = st"
| "scan_row i j2len blo bhi (j # js) (newj2len, (besti, bestj, bestsize)) =
     (if j < blo then scan_row i j2len blo bhi js (newj2len, (besti, bestj, bestsize))
      else if bhi \<le> j then (newj2len, (besti, bestj, bestsize))
      else
        let k = (if j = 0 then 0 else j2len (j - 1)) + 1
        in scan_row i j2len blo bhi js
             (newj2len(j := k),
              if bestsize < k then (i + 1 - k, j + 1 - k, k) else (besti, bestj, bestsize)))"

fun scan_rows ::
  "string \<Rightarrow> string \<Rightarrow> nat \<Rightarrow> nat \<Rightarrow> nat list \<Rightarrow> (nat \<Rightarrow> nat) \<times> match \<Rightarrow> (nat \<Rightarrow> nat) \<times> match"
where
  "scan_rows a b blo bhi [] st = st"
| "scan_rows a b blo bhi (i # is) (j2len, best) =
     scan_rows a b blo bhi is (scan_row i j2len blo bhi (b2j b (a ! i)) (\<lambda>j. 0, best))"

text \<open>
  The two loops that extend the match found at both ends. Their tests
  \<^verbatim>\<open>not isbjunk(...)\<close> hold always, since the junk set is empty when the junk predicate is
  \<^verbatim>\<open>None\<close>; for the same reason the two loops after them, which take in junk, never run.
\<close>

fun extend_left :: "string \<Rightarrow> string \<Rightarrow> nat \<Rightarrow> nat \<Rightarrow> match \<Rightarrow> match" where
  "extend_left a b alo blo (besti, bestj, bestsize) =
     (if alo < besti \<and> blo < bestj \<and> a ! (besti - 1) = b ! (bestj - 1)
      then extend_left a b alo blo (besti - 1, bestj - 1, bestsize + 1)
      else (besti, bestj, bestsize))"

function extend_right :: "string \<Rightarrow> string \<Rightarrow> nat \<Rightarrow> nat \<Rightarrow> match \<Rightarrow> match" where
  "extend_right a b ahi bhi (besti, bestj, bestsize) =
     (if besti + bestsize < ahi \<and> bestj + bestsize < bhi
         \<and> a ! (besti + bestsize) = b ! (bestj + bestsize)
      then extend_right a b ahi bhi (besti, bestj, bestsize + 1)
      else (besti, bestj, bestsize))"
  by pat_completeness auto
termination
  by (relation "measure (\<lambda>(a, b, ahi, bhi, besti, bestj, bestsize). ahi - (besti + bestsize))") auto

definition find_longest_match :: "string \<Rightarrow> string \<Rightarrow> nat \<Rightarrow> nat \<Rightarrow> nat \<Rightarrow> nat \<Rightarrow> match" where
  "find_longest_match a b alo ahi blo bhi =
     extend_right a b ahi bhi
       (extend_left a b alo blo
          (snd (scan_rows a b blo bhi [alo..<ahi] (\<lambda>j. 0, (alo, blo, 0)))))"

text \<open>
  \<^verbatim>\<open>get_matching_blocks\<close> takes a range off its queue, finds the longest match in it, and
  queues the range on its left and the range on its right when they are not empty on both
  sides. The blocks come out sorted; here they are produced in that order. The recursion
  is one of smaller ranges, which its termination proof shows below.
\<close>

function matching_blocks :: "string \<Rightarrow> string \<Rightarrow> nat \<Rightarrow> nat \<Rightarrow> nat \<Rightarrow> nat \<Rightarrow> match list" where
  "matching_blocks a b alo ahi blo bhi =
     (case find_longest_match a b alo ahi blo bhi of
        (i, j, k) \<Rightarrow>
          if k = 0 then []
          else (if alo < i \<and> blo < j then matching_blocks a b alo i blo j else [])
               @ [(i, j, k)]
               @ (if i + k < ahi \<and> j + k < bhi then matching_blocks a b (i + k) ahi (j + k) bhi
                  else []))"
  by pat_completeness auto

text \<open>
  \<^verbatim>\<open>_calculate_ratio(matches, length)\<close> returns \<^verbatim>\<open>2.0 * matches / length\<close>, and 1.0 when
  \<open>length\<close> is 0. Both numbers are lengths of strings; below \<open>2 ^ 53\<close> their conversion to
  float and the doubling are exact, so the result is the quotient rounded once.
\<close>

definition calculate_ratio :: "nat \<Rightarrow> nat \<Rightarrow> pyfloat" where
  "calculate_ratio matches len =
     (if len \<noteq> 0 then round_q (2 * int matches) (int len) else Fin 1 0)"

text \<open>\<^verbatim>\<open>ratio()\<close>: the sizes of the matching blocks, summed, over the two lengths.\<close>

definition ratio :: "string \<Rightarrow> string \<Rightarrow> pyfloat" where
  "ratio a b =
     calculate_ratio
       (sum_list (map (\<lambda>(i, j, k). k) (matching_blocks a b 0 (length a) 0 (length b))))
       (length a + length b)"

section \<open>The program\<close>

subsection \<open>What the program takes from its libraries\<close>

text \<open>
  A cell of the sheet is a value of any type \<open>'v\<close>. The program looks at it through four
  library calls only, which are the fields of \<open>pylib\<close>:
  \<^item> \<open>isna v\<close> is \<^verbatim>\<open>pd.isna(v)\<close>;
  \<^item> \<open>py_float v\<close> is \<^verbatim>\<open>float(v)\<close>, and \<open>None\<close> when the call raises;
  \<^item> \<open>py_str v\<close> is \<^verbatim>\<open>str(v)\<close>;
  \<^item> \<open>date_parse s\<close> is \<^verbatim>\<open>dateutil.parser.parse(s)\<close>, and \<open>None\<close> when the call raises.

  Every theorem below holds for all four functions, whatever they are.
\<close>

record datetime =
  year :: int
  month :: int
  day :: int
  hour :: int
  minute :: int
  second :: int
  microsecond :: int

text \<open>\<^verbatim>\<open>datetime.date()\<close>: the calendar date, without the time of day.\<close>

definition date :: "datetime \<Rightarrow> int \<times> int \<times> int" where
  "date d = (year d, month d, day d)"

record 'v pylib =
  isna :: "'v \<Rightarrow> bool"
  py_float :: "'v \<Rightarrow> pyfloat option"
  py_str :: "'v \<Rightarrow> string"
  date_parse :: "string \<Rightarrow> datetime option"

subsection \<open>\<^verbatim>\<open>make_unique\<close>\<close>



subsection \<open>\<^verbatim>\<open>detect_type\<close>\<close>

text \<open>
  The result is Python's \<^verbatim>\<open>None\<close> or one of the strings \<^verbatim>\<open>"number"\<close>, \<^verbatim>\<open>"date"\<close>,
  \<^verbatim>\<open>"string"\<close>. Each \<^verbatim>\<open>try\<close> with its bare \<^verbatim>\<open>except: pass\<close> is a case on whether the call
  raised.
\<close>

definition detect_type :: "'v pylib \<Rightarrow> 'v \<Rightarrow> string option" where
  "detect_type L v =
     (if isna L v then None
      else
        case py_float L v of
          Some x \<Rightarrow> Some ''number''
        | None \<Rightarrow>
            (case date_parse L (py_str L v) of
               Some d \<Rightarrow> Some ''date''
             | None \<Rightarrow> Some ''string''))"

subsection \<open>\<^verbatim>\<open>compare\<close>\<close>

text \<open>
  The lines of \<^verbatim>\<open>compare\<close> from \<^verbatim>\<open># string\<close> on, as a function of \<^verbatim>\<open>str(a)\<close> and
  \<^verbatim>\<open>str(b)\<close>.
\<close>

definition compare_strings :: "string \<Rightarrow> string \<Rightarrow> pyfloat \<Rightarrow> bool \<times> string" where
  "compare_strings sa sb fuzzy =
     (let a = strip sa; b = strip sb
      in
        if a = b then (True, ''string match'')
        else
          let r = ratio (lower a) (lower b)
          in (fge r fuzzy, ''string mismatch ('' @ fmt2f r @ '')''))"

text \<open>
  \<^verbatim>\<open>compare(a, b, tol, fuzzy)\<close> returns the pair of a verdict and a reason. In the numeric
  branch an exception of either \<^verbatim>\<open>float\<close> call is caught and gives
  \<^verbatim>\<open>"num parse fail"\<close>; in the date branch an exception of either \<^verbatim>\<open>date_parse\<close> call is
  caught and passed over, and control goes on to the string comparison.
\<close>

definition compare :: "'v pylib \<Rightarrow> 'v \<Rightarrow> 'v \<Rightarrow> pyfloat \<Rightarrow> pyfloat \<Rightarrow> bool \<times> string" where
  "compare L a b tol fuzzy =
     (if isna L a \<and> isna L b then (True, ''empty'')
      else if isna L a then (False, ''left empty'')
      else if isna L b then (False, ''right empty'')
      else
        let ta = detect_type L a; tb = detect_type L b
        in
          if ta = Some ''number'' \<or> tb = Some ''number'' then
            (case (py_float L a, py_float L b) of
               (Some x, Some y) \<Rightarrow>
                 if fle (fabs (fsub x y)) tol then (True, ''num ok'')
                 else (False, ''num mismatch'')
             | _ \<Rightarrow> (False, ''num parse fail''))
          else
            case
              (if ta = Some ''date'' \<or> tb = Some ''date'' then
                 (case (date_parse L (py_str L a), date_parse L (py_str L b)) of
                    (Some da, Some db) \<Rightarrow>
                      Some (if date da = date db then (True, ''date ok'')
                            else (False, ''date mismatch''))
                  | _ \<Rightarrow> None)
               else None)
            of
              Some verdict \<Rightarrow> verdict
            | None \<Rightarrow> compare_strings (py_str L a) (py_str L b) fuzzy)"

subsection \<open>The validation run\<close>

text \<open>
  The data frame \<^verbatim>\<open>df_preview\<close> is the list of its rows; a row is the list of its cells in
  the order of the columns, each with the label of its column. Two columns can carry one
  label. \<open>cell df r c\<close> is \<^verbatim>\<open>df_preview.iloc[r][c]\<close>: an \<^verbatim>\<open>IndexError\<close> past the last row, a
  \<^verbatim>\<open>KeyError\<close> for a label the frame does not have, the cell under a label that names one
  column, and under a label that names several columns the Series of their cells. Row
  numbers come from inputs with \<^verbatim>\<open>min_value=0\<close>, so they are naturals.
\<close>

type_synonym 'v table = "(string \<times> 'v) list list"

datatype error = IndexError | KeyError | ValueError

datatype 'v entry = Scalar 'v | Series "'v list"

definition cell :: "'v table \<Rightarrow> nat \<Rightarrow> string \<Rightarrow> error + 'v entry" where
  "cell df r c =
     (if r < length df then
        (case map snd (filter (\<lambda>p. fst p = c) (df ! r)) of
           [] \<Rightarrow> Inl KeyError
         | [v] \<Rightarrow> Inr (Scalar v)
         | vs \<Rightarrow> Inr (Series vs))
      else Inl IndexError)"

text \<open>
  The call \<^verbatim>\<open>compare(left_val, right_val, num_tol, fuzzy_tol)\<close> on what the two lookups
  returned. \<open>isna_truth\<close> is the truth value that an \<^verbatim>\<open>if\<close> takes of \<^verbatim>\<open>pd.isna(x)\<close>: of a
  Series, \<^verbatim>\<open>pd.isna\<close> is a Series again, whose truth value raises \<^verbatim>\<open>ValueError\<close>.
  \<open>compare_entries\<close> goes through the three \<^verbatim>\<open>if\<close>s at the head of \<^verbatim>\<open>compare\<close> that way
  (in the first, \<^verbatim>\<open>and\<close> looks at \<open>b\<close> only when \<open>a\<close> is missing); past them both values
  are cells, and the result is that of \<open>compare\<close>.
\<close>

definition isna_truth :: "'v pylib \<Rightarrow> 'v entry \<Rightarrow> error + bool" where
  "isna_truth L x = (case x of Scalar v \<Rightarrow> Inr (isna L v) | Series vs \<Rightarrow> Inl ValueError)"

definition compare_entries ::
  "'v pylib \<Rightarrow> 'v entry \<Rightarrow> 'v entry \<Rightarrow> pyfloat \<Rightarrow> pyfloat \<Rightarrow> error + bool \<times> string"
where
  "compare_entries L a b tol fuzzy =
     (case isna_truth L a of
        Inl e \<Rightarrow> Inl e
      | Inr na \<Rightarrow>
          (case (if na then isna_truth L b else Inr False) of
             Inl e \<Rightarrow> Inl e
           | Inr both \<Rightarrow>
               if both then Inr (True, ''empty'')
               else if na then Inr (False, ''left empty'')
               else
                 (case isna_truth L b of
                    Inl e \<Rightarrow> Inl e
                  | Inr nb \<Rightarrow>
                      if nb then Inr (False, ''right empty'')
                      else
                        (case (a, b) of
                           (Scalar x, Scalar y) \<Rightarrow> Inr (compare L x y tol fuzzy)
                         | _ \<Rightarrow> Inl ValueError))))"

record 'v mismatch =
  row :: nat
  left_column :: string
  right_column :: string
  left_value :: "'v entry"
  right_value :: "'v entry"
  reason :: string

text \<open>
  The loop \<^verbatim>\<open>for (lc, rc) in mapping\<close> for one row, and the loop
  \<^verbatim>\<open>for row in range(start_row, end_row + 1)\<close> around it. The list \<^verbatim>\<open>mismatches\<close> is
  passed along; an exception ends the run.
\<close>

fun check_pairs ::
  "'v pylib \<Rightarrow> 'v table \<Rightarrow> pyfloat \<Rightarrow> pyfloat \<Rightarrow> nat \<Rightarrow> (string \<times> string) list
     \<Rightarrow> 'v mismatch list \<Rightarrow> error + 'v mismatch list"
where
  "check_pairs L df num_tol fuzzy_tol r [] mismatches = Inr mismatches"
| "check_pairs L df num_tol fuzzy_tol r ((lc, rc) # mapping) mismatches =
     (case cell df r lc of
        Inl e \<Rightarrow> Inl e
      | Inr left_val \<Rightarrow>
          (case cell df r rc of
             Inl e \<Rightarrow> Inl e
           | Inr right_val \<Rightarrow>
               (case compare_entries L left_val right_val num_tol fuzzy_tol of
                  Inl e \<Rightarrow> Inl e
                | Inr (ok, why) \<Rightarrow>
                    check_pairs L df num_tol fuzzy_tol r mapping
                      (if \<not> ok then
                         mismatches @
                           [\<lparr>row = r, left_column = lc, right_column = rc,
                             left_value = left_val, right_value = right_val, reason = why\<rparr>]
                       else mismatches))))"

fun check_rows ::
  "'v pylib \<Rightarrow> 'v table \<Rightarrow> pyfloat \<Rightarrow> pyfloat \<Rightarrow> (string \<times> string) list \<Rightarrow> nat list
     \<Rightarrow> 'v mismatch list \<Rightarrow> error + 'v mismatch list"
where
  "check_rows L df num_tol fuzzy_tol mapping [] mismatches = Inr mismatches"
| "check_rows L df num_tol fuzzy_tol mapping (r # rows) mismatches =
     (case check_pairs L df num_tol fuzzy_tol r mapping mismatches of
        Inl e \<Rightarrow> Inl e
      | Inr mismatches' \<Rightarrow> check_rows L df num_tol fuzzy_tol mapping rows mismatches')"

text \<open>
  The body of \<^verbatim>\<open>if run:\<close>: the two loops, then
  \<^verbatim>\<open>total_checks = (end_row - start_row + 1) * len(mapping)\<close>, an integer that is negative
  when \<open>end_row + 1 < start_row\<close>. The result is the list of mismatches with the total.
\<close>

definition validate ::
  "'v pylib \<Rightarrow> 'v table \<Rightarrow> (string \<times> string) list \<Rightarrow> nat \<Rightarrow> nat \<Rightarrow> pyfloat \<Rightarrow> pyfloat
     \<Rightarrow> error + ('v mismatch list \<times> int)"
where
  "validate L df mapping start_row end_row num_tol fuzzy_tol =
     (case check_rows L df num_tol fuzzy_tol mapping [start_row..<end_row + 1] [] of
        Inl e \<Rightarrow> Inl e
      | Inr mismatches \<Rightarrow>
          Inr (mismatches, (int end_row - int start_row + 1) * int (length mapping)))"

section \<open>A sheet of text cells\<close>

text \<open>
  To run the program on concrete cells, \<open>text_cells\<close> gives the four library calls on a
  sheet whose cells are text or missing: \<open>None\<close> is the missing cell (a NaN), \<open>Some s\<close> the
  text \<open>s\<close>. \<^verbatim>\<open>float\<close> is given on plain decimal literals (a sign, digits, a point, inside
  the whitespace that \<^verbatim>\<open>float\<close> skips, which leaves out the separators U+001C to U+001F) and
  \<^verbatim>\<open>date_parse\<close> on the two all-digit layouts \<^verbatim>\<open>YYYY-MM-DD\<close> and \<^verbatim>\<open>MM/DD/YYYY\<close> of a
  day of the calendar; both raise on every other text here, although the real calls
  accept more. It is used only to evaluate the program at concrete inputs on which it
  agrees with the real calls.
\<close>

definition is_digit :: "char \<Rightarrow> bool" where
  "is_digit c = (48 \<le> (of_char c :: nat) \<and> (of_char c :: nat) \<le> 57)"

definition int_of_digits :: "string \<Rightarrow> int" where
  "int_of_digits s = foldl (\<lambda>n c. 10 * n + (of_char c - 48)) 0 s"

definition float_space :: "char \<Rightarrow> bool" where
  "float_space c = (of_char c \<in> {9, 10, 11, 12, 13, 32, 133, 160 :: nat})"

definition float_of_text :: "string \<Rightarrow> pyfloat option" where
  "float_of_text s =
     (let t = rev (dropWhile float_space (rev (dropWhile float_space s)));
          neg = (t \<noteq> [] \<and> hd t = CHR ''-'');
          u = (if t \<noteq> [] \<and> (hd t = CHR ''-'' \<or> hd t = CHR ''+'') then tl t else t);
          ip = takeWhile is_digit u;
          rest = dropWhile is_digit u;
          fp = (if rest \<noteq> [] \<and> hd rest = CHR ''.'' then tl rest else rest)
      in if list_all is_digit fp \<and> (ip \<noteq> [] \<or> fp \<noteq> [])
         then Some (round_q ((if neg then - 1 else 1) * int_of_digits (ip @ fp))
                      (10 ^ length fp))
         else None)"

definition days_in_month :: "int \<Rightarrow> int \<Rightarrow> int" where
  "days_in_month y m =
     (if m = 2 then (if y mod 4 = 0 \<and> (y mod 100 \<noteq> 0 \<or> y mod 400 = 0) then 29 else 28)
      else if m \<in> {4, 6, 9, 11} then 30 else 31)"

definition midnight :: "int \<Rightarrow> int \<Rightarrow> int \<Rightarrow> datetime option" where
  "midnight y m d =
     (if 1 \<le> y \<and> 1 \<le> m \<and> m \<le> 12 \<and> 1 \<le> d \<and> d \<le> days_in_month y m
      then Some \<lparr>year = y, month = m, day = d, hour = 0, minute = 0, second = 0,
                  microsecond = 0\<rparr>
      else None)"

definition date_of_text :: "string \<Rightarrow> datetime option" where
  "date_of_text s =
     (if length s = 10 \<and> s ! 4 = CHR ''-'' \<and> s ! 7 = CHR ''-''
           \<and> list_all is_digit (take 4 s @ take 2 (drop 5 s) @ drop 8 s)
      then midnight (int_of_digits (take 4 s)) (int_of_digits (take 2 (drop 5 s)))
             (int_of_digits (drop 8 s))
      else if length s = 10 \<and> s ! 2 = CHR ''/'' \<and> s ! 5 = CHR ''/''
           \<and> list_all is_digit (take 2 s @ take 2 (drop 3 s) @ drop 6 s)
      then midnight (int_of_digits (drop 6 s)) (int_of_digits (take 2 s))
             (int_of_digits (take 2 (drop 3 s)))
      else None)"

definition text_cells :: "string option pylib" where
  "text_cells =
     \<lparr>isna = (\<lambda>v. v = None),
      py_float = (\<lambda>v. case v of None \<Rightarrow> Some NaN | Some s \<Rightarrow> float_of_text s),
      py_str = (\<lambda>v. case v of None \<Rightarrow> ''nan'' | Some s \<Rightarrow> s),
      date_parse = date_of_text\<rparr>"

text \<open>
  \<open>clock_cells\<close> gives the library calls on two texts that name the same day at two times
  of day, which \<^verbatim>\<open>dateutil\<close> parses to the datetimes shown; it serves to evaluate the date
  comparison where the times differ.
\<close>

definition clock_cells :: "string pylib" where
  "clock_cells =
     \<lparr>isna = (\<lambda>v. False), py_float = (\<lambda>v. None), py_str = (\<lambda>v. v),
      date_parse = (\<lambda>s. if s = ''2024-01-05 09:30'' then
                            Some \<lparr>year = 2024, month = 1, day = 5, hour = 9, minute = 30,
                                  second = 0, microsecond = 0\<rparr>
                          else if s = ''Jan 5 2024 17:45'' then
                            Some \<lparr>year = 2024, month = 1, day = 5, hour = 17, minute = 45,
                                  second = 0, microsecond = 0\<rparr>
                          else None)\<rparr>"

section \<open>The grid a run covers\<close>

text \<open>
  \<open>names_one row c\<close>: the label \<open>c\<close> names exactly one column. \<open>resolves df mapping r\<close>: row
  \<open>r\<close> exists, and every label of the mapping names exactly one column.
  \<open>grid_mismatches\<close> lists the mismatch records of a range of rows, row by row and, within
  a row, pair by pair in the order of the mapping: what a run that visits every cell of
  the grid returns.
\<close>

definition names_one :: "(string \<times> 'v) list \<Rightarrow> string \<Rightarrow> bool" where
  "names_one cells c = (length (filter (\<lambda>p. fst p = c) cells) = 1)"

definition resolves :: "'v table \<Rightarrow> (string \<times> string) list \<Rightarrow> nat \<Rightarrow> bool" where
  "resolves df mapping r =
     (r < length df \<and> (\<forall>(lc, rc) \<in> set mapping. names_one (df ! r) lc \<and> names_one (df ! r) rc))"

definition pair_mismatches ::
  "'v pylib \<Rightarrow> 'v table \<Rightarrow> pyfloat \<Rightarrow> pyfloat \<Rightarrow> nat \<Rightarrow> string \<times> string \<Rightarrow> 'v mismatch list"
where
  "pair_mismatches L df num_tol fuzzy_tol r p =
     (case p of
        (lc, rc) \<Rightarrow>
          (case (cell df r lc, cell df r rc) of
             (Inr (Scalar x), Inr (Scalar y)) \<Rightarrow>
               (case compare L x y num_tol fuzzy_tol of
                  (ok, why) \<Rightarrow>
                    if ok then []
                    else [\<lparr>row = r, left_column = lc, right_column = rc,
                           left_value = Scalar x, right_value = Scalar y, reason = why\<rparr>])
           | _ \<Rightarrow> []))"

definition grid_mismatches ::
  "'v pylib \<Rightarrow> 'v table \<Rightarrow> pyfloat \<Rightarrow> pyfloat \<Rightarrow> (string \<times> string) list \<Rightarrow> nat list
     \<Rightarrow> 'v mismatch list"
where
  "grid_mismatches L df num_tol fuzzy_tol mapping rows =
     concat (map (\<lambda>r. concat (map (pair_mismatches L df num_tol fuzzy_tol r) mapping)) rows)"

section \<open>A worked sheet\<close>

text \<open>
  The floats written \<^verbatim>\<open>0.01\<close> and \<^verbatim>\<open>0.85\<close> (the defaults of the two tolerances), a sheet
  of three rows and two columns, and the one record its validation returns. Then a sheet
  of one row under the header row \<^verbatim>\<open>x, x, x__1\<close>, with the labels that \<^verbatim>\<open>make_unique\<close>
  gives its columns.
\<close>

definition float_0_01 :: pyfloat where
  "float_0_01 = round_q 1 100"

definition float_0_85 :: pyfloat where
  "float_0_85 = round_q 85 100"

definition scenario :: "string option table" where
  "scenario =
     [[(''left'', Some ''10''), (''right'', Some ''10.005'')],
      [(''left'', Some ''2024-01-05''), (''right'', Some ''01/05/2024'')],
      [(''left'', Some ''Bob''), (''right'', Some ''Bobby'')]]"

definition bob :: "string option mismatch" where
  "bob = \<lparr>row = 2, left_column = ''left'', right_column = ''right'',
          left_value = Scalar (Some ''Bob''), right_value = Scalar (Some ''Bobby''),
          reason = ''string mismatch (0.75)''\<rparr>"


section \<open>Invariants of the matching\<close>

text \<open>
  A match found in a range lies inside the range: \<open>in_range\<close> says so for a match, and
  \<open>row_bound\<close> is what the table \<open>j2len\<close> satisfies after \<open>n\<close> rows.
\<close>

definition in_range :: "nat \<Rightarrow> nat \<Rightarrow> nat \<Rightarrow> nat \<Rightarrow> match \<Rightarrow> bool" where
  "in_range alo ahi blo bhi x =
     (case x of (i, j, k) \<Rightarrow> alo \<le> i \<and> blo \<le> j \<and> i + k \<le> max alo ahi \<and> j + k \<le> max blo bhi)"

definition row_bound :: "nat \<Rightarrow> nat \<Rightarrow> (nat \<Rightarrow> nat) \<Rightarrow> bool" where
  "row_bound n blo t = (\<forall>j. t j \<le> n \<and> t j \<le> j + 1 - blo)"

text \<open>
  For a string matched against itself: \<open>prevlen t j\<close> is \<^verbatim>\<open>j2len.get(j-1, 0)\<close>,
  \<open>run_len s j\<close> counts the characters that are not popular in a row up to position \<open>j\<close>,
  and \<open>diag_inv\<close> is what the state of \<open>scan_rows\<close> satisfies after \<open>i\<close> rows: the best
  match lies on the diagonal, no entry of the table exceeds it, and the table holds the
  run length on the diagonal.
\<close>

definition prevlen :: "(nat \<Rightarrow> nat) \<Rightarrow> nat \<Rightarrow> nat" where
  "prevlen t j = (if j = 0 then 0 else t (j - 1))"

fun run_len :: "string \<Rightarrow> nat \<Rightarrow> nat" where
  "run_len s 0 = (if popular s (s ! 0) then 0 else 1)"
| "run_len s (Suc j) = (if popular s (s ! Suc j) then 0 else run_len s j + 1)"

definition diag_inv :: "string \<Rightarrow> nat \<Rightarrow> (nat \<Rightarrow> nat) \<times> match \<Rightarrow> bool" where
  "diag_inv s i st =
     (case st of
        (t, (bi, bj, bk)) \<Rightarrow>
          bi = bj \<and> bi + bk \<le> i
          \<and> (\<forall>j. t j \<le> bk \<and> t j \<le> prevlen t i \<and> t j \<le> run_len s j)
          \<and> (\<forall>j<i. run_len s j \<le> bk)
          \<and> prevlen t i = prevlen (run_len s) i)"

text \<open>
  For any two strings: \<open>row_gen\<close> and \<open>match_gen\<close> say that the entries of the table and
  a match stand for characters that are equal one by one; \<open>matches\<close> is the sum of the
  sizes of the matching blocks of a range; \<open>tiles\<close> says that this sum is at most the
  length of the range on each side, and that the two ranges are equal, character by
  character, when the sum reaches the length of both.
\<close>

definition row_gen :: "string \<Rightarrow> string \<Rightarrow> nat \<Rightarrow> (nat \<Rightarrow> nat) \<Rightarrow> bool" where
  "row_gen a b i t = (\<forall>j u. u < t j \<longrightarrow> a ! (i - Suc u) = b ! (j - u))"

definition matches :: "string \<Rightarrow> string \<Rightarrow> nat \<Rightarrow> nat \<Rightarrow> nat \<Rightarrow> nat \<Rightarrow> nat" where
  "matches a b alo ahi blo bhi
     = sum_list (map (\<lambda>(i, j, k). k) (matching_blocks a b alo ahi blo bhi))"

definition tiles :: "string \<Rightarrow> string \<Rightarrow> nat \<Rightarrow> nat \<Rightarrow> nat \<Rightarrow> nat \<Rightarrow> nat \<Rightarrow> bool" where
  "tiles a b alo ahi blo bhi m =
     (m \<le> ahi - alo \<and> m \<le> bhi - blo
      \<and> (m = ahi - alo \<and> m = bhi - blo \<longrightarrow> (\<forall>t < ahi - alo. a ! (alo + t) = b ! (blo + t))))"

definition match_gen :: "string \<Rightarrow> string \<Rightarrow> match \<Rightarrow> bool" where
  "match_gen a b x = (case x of (i, j, k) \<Rightarrow> \<forall>u<k. a ! (i + u) = b ! (j + u))"

declare nrm.simps [simp del] digits.simps [simp del]
  extend_left.simps [simp del] extend_right.simps [simp del]

lemma scan_row_bounds:
  assumes "row_bound n blo prev" "row_bound (Suc n) blo new" "in_range alo ahi blo bhi best"
    and "i = alo + n" "i < ahi"
  shows "row_bound (Suc n) blo (fst (scan_row i prev blo bhi js (new, best)))
       \<and> in_range alo ahi blo bhi (snd (scan_row i prev blo bhi js (new, best)))"
  using assms
proof (induction js arbitrary: new best)
  case Nil
  then show ?case by simp
next
  case (Cons j js)
  obtain bi bj bk where best: "best = (bi, bj, bk)" by (cases best) auto
  show ?case
  proof (cases "j < blo \<or> bhi \<le> j")
    case True
    then show ?thesis using Cons best by auto
  next
    case False
    define k where "k = (if j = 0 then 0 else prev (j - 1)) + 1"
    have k1: "k \<le> Suc n" using Cons.prems(1) by (auto simp: k_def row_bound_def)
    have k2: "k \<le> j + 1 - blo"
    proof (cases "j = 0")
      case True then show ?thesis using False by (simp add: k_def)
    next
      case nz: False
      have "prev (j - 1) \<le> (j - 1) + 1 - blo" using Cons.prems(1) by (auto simp: row_bound_def)
      moreover have "blo \<le> j" using False by simp
      ultimately show ?thesis using nz unfolding k_def by auto
    qed
    define best' where "best' = (if bk < k then (i + 1 - k, j + 1 - k, k) else (bi, bj, bk))"
    have new': "row_bound (Suc n) blo (new(j := k))"
      using Cons.prems(2) k1 k2 by (auto simp: row_bound_def)
    have best': "in_range alo ahi blo bhi best'"
      using Cons.prems(3,4,5) k1 k2 False best by (auto simp: in_range_def best'_def)
    have eq: "scan_row i prev blo bhi (j # js) (new, best)
        = scan_row i prev blo bhi js (new(j := k), best')"
      using False best by (simp add: k_def Let_def best'_def)
    show ?thesis
      unfolding eq by (rule Cons.IH[OF Cons.prems(1) new' best' Cons.prems(4,5)])
  qed
qed

lemma scan_rows_bounds:
  assumes "row_bound n blo t" "in_range alo ahi blo bhi best" "[alo + n..<ahi] = is"
  shows "in_range alo ahi blo bhi (snd (scan_rows a b blo bhi is (t, best)))"
  using assms
proof (induction "is" arbitrary: n t best)
  case Nil
  then show ?case by simp
next
  case (Cons i "is")
  have i: "i = alo + n" "i < ahi" "[alo + Suc n..<ahi] = is"
    using Cons.prems(3) by (auto simp: upt_eq_Cons_conv)
  let ?st = "scan_row i t blo bhi (b2j b (a ! i)) (\<lambda>j. 0, best)"
  have z: "row_bound (Suc n) blo (\<lambda>j. 0)" by (simp add: row_bound_def)
  have r: "row_bound (Suc n) blo (fst ?st)" "in_range alo ahi blo bhi (snd ?st)"
    using scan_row_bounds[OF Cons.prems(1) z Cons.prems(2) i(1,2)] by auto
  have "scan_rows a b blo bhi (i # is) (t, best) = scan_rows a b blo bhi is (fst ?st, snd ?st)"
    by simp
  moreover have "in_range alo ahi blo bhi (snd (scan_rows a b blo bhi is (fst ?st, snd ?st)))"
    using Cons.IH[OF r(1) r(2) _ ] i(3) by simp
  ultimately show ?case by simp
qed

lemma extend_left_bounds:
  "in_range alo ahi blo bhi x \<Longrightarrow> in_range alo ahi blo bhi (extend_left a b alo blo x)"
proof (induction a b alo blo x rule: extend_left.induct)
  case (1 a b alo blo besti bestj bestsize)
  show ?case
  proof (cases "alo < besti \<and> blo < bestj \<and> a ! (besti - 1) = b ! (bestj - 1)")
    case True
    have "in_range alo ahi blo bhi (besti - 1, bestj - 1, bestsize + 1)"
      using "1.prems" True by (auto simp: in_range_def)
    from "1.IH"[OF True this] True show ?thesis
      by (subst extend_left.simps) simp
  next
    case False
    then show ?thesis using "1.prems" by (subst extend_left.simps) auto
  qed
qed

lemma extend_right_bounds:
  "in_range alo ahi blo bhi x \<Longrightarrow> in_range alo ahi blo bhi (extend_right a b ahi bhi x)"
proof (induction a b ahi bhi x rule: extend_right.induct)
  case (1 a b ahi bhi besti bestj bestsize)
  show ?case
  proof (cases "besti + bestsize < ahi \<and> bestj + bestsize < bhi
         \<and> a ! (besti + bestsize) = b ! (bestj + bestsize)")
    case True
    have "in_range alo ahi blo bhi (besti, bestj, bestsize + 1)"
      using "1.prems" True by (auto simp: in_range_def)
    from "1.IH"[OF True this] True show ?thesis
      by (subst extend_right.simps) simp
  next
    case False
    then show ?thesis using "1.prems" by (subst extend_right.simps) auto
  qed
qed

lemma find_longest_match_bounds:
  "in_range alo ahi blo bhi (find_longest_match a b alo ahi blo bhi)"
proof -
  have z: "row_bound 0 blo (\<lambda>j. 0)" by (simp add: row_bound_def)
  have i: "in_range alo ahi blo bhi (alo, blo, 0)" by (simp add: in_range_def)
  have "in_range alo ahi blo bhi (snd (scan_rows a b blo bhi [alo..<ahi] (\<lambda>j. 0, (alo, blo, 0))))"
  proof (cases "alo \<le> ahi")
    case True
    then show ?thesis using scan_rows_bounds[OF z i refl] by simp
  next
    case False
    then show ?thesis using i by simp
  qed
  then show ?thesis
    unfolding find_longest_match_def by (intro extend_right_bounds extend_left_bounds)
qed

lemma find_longest_match_size:
  assumes "(i, j, k) = find_longest_match a b alo ahi blo bhi" "k \<noteq> 0"
  shows "alo \<le> i \<and> i + k \<le> ahi \<and> blo \<le> j \<and> j + k \<le> bhi"
  using find_longest_match_bounds[of alo ahi blo bhi a b] assms
  unfolding assms(1)[symmetric] in_range_def by (auto simp: max_def split: if_splits)

termination matching_blocks
proof (relation "measure (\<lambda>(a, b, alo, ahi, blo, bhi). ahi - alo)")
  show "wf (measure (\<lambda>(a, b, alo, ahi, blo, bhi). ahi - alo))" by simp
next
  fix a b :: string and alo ahi blo bhi x xa ya :: nat and y :: "nat \<times> nat"
  assume "(x, y) = find_longest_match a b alo ahi blo bhi" "(xa, ya) = y" "ya \<noteq> 0"
    "alo < x \<and> blo < xa"
  then show "((a, b, alo, x, blo, xa), a, b, alo, ahi, blo, bhi)
      \<in> measure (\<lambda>(a, b, alo, ahi, blo, bhi). ahi - alo)"
    using find_longest_match_size[of x xa ya a b alo ahi blo bhi] by auto
next
  fix a b :: string and alo ahi blo bhi x xa ya :: nat and y :: "nat \<times> nat"
  assume "(x, y) = find_longest_match a b alo ahi blo bhi" "(xa, ya) = y" "ya \<noteq> 0"
    "x + ya < ahi \<and> xa + ya < bhi"
  then show "((a, b, x + ya, ahi, xa + ya, bhi), a, b, alo, ahi, blo, bhi)
      \<in> measure (\<lambda>(a, b, alo, ahi, blo, bhi). ahi - alo)"
    using find_longest_match_size[of x xa ya a b alo ahi blo bhi] by auto
qed

declare matching_blocks.simps [simp del]

section \<open>The claims\<close>

text \<open>
  The reasons are stated as the strings the program returns (\<open>"num ok"\<close>,
  \<open>"left empty"\<close>); the specification names the same codes with a hyphen.
\<close>

subsection \<open>Absent values\<close>

text \<open>
  C4. Absent handling comes first in \<^verbatim>\<open>compare\<close>: two absent values give
  \<open>(True, "empty")\<close>; a single absent value gives no match, with reason \<open>"left empty"\<close> when
  the left one is absent and \<open>"right empty"\<close> when the right one is, whatever the other
  value and whatever the tolerances.
\<close>

theorem compare_absent:
  "(isna L a \<and> isna L b \<longrightarrow> compare L a b tol fuzzy = (True, ''empty''))
   \<and> (isna L a \<and> \<not> isna L b \<longrightarrow> compare L a b tol fuzzy = (False, ''left empty''))
   \<and> (\<not> isna L a \<and> isna L b \<longrightarrow> compare L a b tol fuzzy = (False, ''right empty''))"
  by (simp add: compare_def)

theorem compare_absent_witness:
  "compare text_cells None None (Fin 0 0) (Fin 1 0) = (True, ''empty'')
   \<and> compare text_cells None (Some ''5'') (Fin 0 0) (Fin 1 0) = (False, ''left empty'')
   \<and> compare text_cells (Some ''5'') None (Fin 0 0) (Fin 1 0) = (False, ''right empty'')"
  using compare_absent [of text_cells None None "Fin 0 0" "Fin 1 0"]
    compare_absent [of text_cells None "Some ''5''" "Fin 0 0" "Fin 1 0"]
    compare_absent [of text_cells "Some ''5''" None "Fin 0 0" "Fin 1 0"]
  by (simp add: text_cells_def)

subsection \<open>The type classifier\<close>

text \<open>
  C6. \<^verbatim>\<open>detect_type\<close> returns one of \<^verbatim>\<open>None\<close>, \<open>"number"\<close>, \<open>"date"\<close>, \<open>"string"\<close>; it
  returns \<^verbatim>\<open>None\<close> exactly for a missing value; otherwise a value that \<^verbatim>\<open>float\<close> accepts is
  a number, whether or not it would parse as a date, a value that only the date parser
  accepts is a date, and any other value is a string.
\<close>

theorem detect_type_cases:
  "(detect_type L v = None \<longleftrightarrow> isna L v)
   \<and> (\<not> isna L v \<and> py_float L v \<noteq> None \<longrightarrow> detect_type L v = Some ''number'')
   \<and> (\<not> isna L v \<and> py_float L v = None \<and> date_parse L (py_str L v) \<noteq> None
        \<longrightarrow> detect_type L v = Some ''date'')
   \<and> (\<not> isna L v \<and> py_float L v = None \<and> date_parse L (py_str L v) = None
        \<longrightarrow> detect_type L v = Some ''string'')
   \<and> detect_type L v \<in> {None, Some ''number'', Some ''date'', Some ''string''}"
  by (auto simp: detect_type_def split: option.splits)

theorem detect_type_cases_witness:
  "detect_type text_cells None = None
   \<and> detect_type text_cells (Some ''20240105'') = Some ''number''
   \<and> detect_type text_cells (Some ''2024-01-05'') = Some ''date''
   \<and> detect_type text_cells (Some ''Apple'') = Some ''string''"
proof -
  have 1: "isna text_cells None" by (simp add: text_cells_def)
  have 2: "\<not> isna text_cells (Some ''20240105'') \<and> py_float text_cells (Some ''20240105'') \<noteq> None"
    by code_simp
  have 3: "\<not> isna text_cells (Some ''2024-01-05'') \<and> py_float text_cells (Some ''2024-01-05'') = None
      \<and> date_parse text_cells (py_str text_cells (Some ''2024-01-05'')) \<noteq> None"
    by code_simp
  have 4: "\<not> isna text_cells (Some ''Apple'') \<and> py_float text_cells (Some ''Apple'') = None
      \<and> date_parse text_cells (py_str text_cells (Some ''Apple'')) = None"
    by code_simp
  note c = detect_type_cases [THEN conjunct2]
  show ?thesis
    using detect_type_cases [of text_cells None, THEN conjunct1, THEN iffD2, OF 1]
      c [of text_cells "Some ''20240105''", THEN conjunct1, THEN mp, OF 2]
      c [of text_cells "Some ''2024-01-05''", THEN conjunct2, THEN conjunct1, THEN mp, OF 3]
      c [of text_cells "Some ''Apple''", THEN conjunct2, THEN conjunct2, THEN conjunct1, THEN mp, OF 4]
    by (intro conjI)
qed

subsection \<open>The numeric branch\<close>




text \<open>
  The difference compared with the tolerance is the float \<^verbatim>\<open>float(a) - float(b)\<close>, rounded
  as every float operation is: \<open>1.0 - 1.01\<close> is a little more than the float \<open>0.01\<close>, and
  these two cells do not match at that tolerance.
\<close>

lemma compare_numeric_rounded:
  "fabs (fsub (Fin 1 0) (round_q 101 100)) = Fin 45035996273705 (- 52)
   \<and> float_0_01 = Fin 5764607523034235 (- 59)
   \<and> compare text_cells (Some ''1.00'') (Some ''1.01'') float_0_01 float_0_85
        = (False, ''num mismatch'')"
  by code_simp

subsection \<open>The date branch\<close>

text \<open>
  C3. When neither value is absent, neither classifies as a number and either classifies
  as a date, \<^verbatim>\<open>compare\<close> parses both as dates. If both parse, the verdict is a match
  exactly when year, month and day agree, whatever the times of day and the tolerances,
  with reason \<open>"date ok"\<close>, and else \<open>"date mismatch"\<close>. If either fails to parse, the
  result is that of the string comparison.
\<close>

theorem compare_dates:
  assumes "\<not> isna L a" "\<not> isna L b"
    and "detect_type L a \<noteq> Some ''number''" "detect_type L b \<noteq> Some ''number''"
    and "detect_type L a = Some ''date'' \<or> detect_type L b = Some ''date''"
  shows "(\<forall>da db. date_parse L (py_str L a) = Some da \<and> date_parse L (py_str L b) = Some db \<longrightarrow>
            compare L a b tol fuzzy =
              (if year da = year db \<and> month da = month db \<and> day da = day db
               then (True, ''date ok'') else (False, ''date mismatch'')))
       \<and> (date_parse L (py_str L a) = None \<or> date_parse L (py_str L b) = None \<longrightarrow>
            compare L a b tol fuzzy = compare_strings (py_str L a) (py_str L b) fuzzy)"
  using assms by (auto simp: compare_def date_def split: option.splits)

theorem compare_dates_witness:
  "compare text_cells (Some ''2024-01-05'') (Some ''01/05/2024'') (Fin 0 0) (Fin 1 0) = (True, ''date ok'')
   \<and> compare text_cells (Some ''2024-01-05'') (Some ''2024-01-06'') (Fin 0 0) (Fin 1 0)
         = (False, ''date mismatch'')
   \<and> compare clock_cells ''2024-01-05 09:30'' ''Jan 5 2024 17:45'' (Fin 0 0) (Fin 1 0)
         = (True, ''date ok'')
   \<and> compare text_cells (Some ''2024-01-05'') (Some ''Apple'') (Fin 0 0) (Fin 1 0)
         = compare_strings ''2024-01-05'' ''Apple'' (Fin 1 0)"
proof -
  have a: "\<not> isna text_cells (Some ''2024-01-05'')" "\<not> isna text_cells (Some ''01/05/2024'')"
    "detect_type text_cells (Some ''2024-01-05'') \<noteq> Some ''number''"
    "detect_type text_cells (Some ''01/05/2024'') \<noteq> Some ''number''"
    "detect_type text_cells (Some ''2024-01-05'') = Some ''date''
       \<or> detect_type text_cells (Some ''01/05/2024'') = Some ''date''"
    "date_parse text_cells (py_str text_cells (Some ''2024-01-05''))
       = Some \<lparr>year = 2024, month = 1, day = 5, hour = 0, minute = 0, second = 0, microsecond = 0\<rparr>"
    "date_parse text_cells (py_str text_cells (Some ''01/05/2024''))
       = Some \<lparr>year = 2024, month = 1, day = 5, hour = 0, minute = 0, second = 0, microsecond = 0\<rparr>"
    by code_simp+
  have b: "\<not> isna text_cells (Some ''2024-01-06'')"
    "detect_type text_cells (Some ''2024-01-06'') \<noteq> Some ''number''"
    "date_parse text_cells (py_str text_cells (Some ''2024-01-06''))
       = Some \<lparr>year = 2024, month = 1, day = 6, hour = 0, minute = 0, second = 0, microsecond = 0\<rparr>"
    by code_simp+
  have c: "\<not> isna clock_cells ''2024-01-05 09:30''" "\<not> isna clock_cells ''Jan 5 2024 17:45''"
    "detect_type clock_cells ''2024-01-05 09:30'' \<noteq> Some ''number''"
    "detect_type clock_cells ''Jan 5 2024 17:45'' \<noteq> Some ''number''"
    "detect_type clock_cells ''2024-01-05 09:30'' = Some ''date''
       \<or> detect_type clock_cells ''Jan 5 2024 17:45'' = Some ''date''"
    "date_parse clock_cells (py_str clock_cells ''2024-01-05 09:30'')
       = Some \<lparr>year = 2024, month = 1, day = 5, hour = 9, minute = 30, second = 0, microsecond = 0\<rparr>"
    "date_parse clock_cells (py_str clock_cells ''Jan 5 2024 17:45'')
       = Some \<lparr>year = 2024, month = 1, day = 5, hour = 17, minute = 45, second = 0, microsecond = 0\<rparr>"
    by code_simp+
  have d: "\<not> isna text_cells (Some ''Apple'')"
    "detect_type text_cells (Some ''Apple'') \<noteq> Some ''number''"
    "date_parse text_cells (py_str text_cells (Some ''Apple'')) = None"
    "py_str text_cells (Some ''Apple'') = ''Apple''"
    "py_str text_cells (Some ''2024-01-05'') = ''2024-01-05''"
    by code_simp+
  have a5: "detect_type text_cells (Some ''2024-01-05'') = Some ''date''" by code_simp
  show ?thesis
    using compare_dates [OF a(1,2,3,4,5), of "Fin 0 0" "Fin 1 0"] a(6,7)
      compare_dates [OF a(1) b(1) a(3) b(2) disjI1 [OF a5], of "Fin 0 0" "Fin 1 0"] b(3)
      compare_dates [OF c(1,2,3,4,5), of "Fin 0 0" "Fin 1 0"] c(6,7)
      compare_dates [OF a(1) d(1) a(3) d(2) disjI1 [OF a5], of "Fin 0 0" "Fin 1 0"] d(3,4,5)
    by simp
qed

subsection \<open>The validation run\<close>

lemma names_one_cell:
  assumes "r < length df" "names_one (df ! r) c"
  shows "\<exists>v. cell df r c = Inr (Scalar v)"
proof -
  from assms(2) obtain p where "filter (\<lambda>p. fst p = c) (df ! r) = [p]"
    by (auto simp: names_one_def length_Suc_conv)
  then show ?thesis using assms(1) by (simp add: cell_def)
qed

lemma compare_entries_scalars:
  "compare_entries L (Scalar x) (Scalar y) tol fuzzy = Inr (compare L x y tol fuzzy)"
  by (simp add: compare_entries_def isna_truth_def compare_def)


lemma check_pairs_resolved:
  assumes "r < length df"
    "\<forall>(lc, rc) \<in> set mapping. names_one (df ! r) lc \<and> names_one (df ! r) rc"
  shows "check_pairs L df num_tol fuzzy_tol r mapping acc
       = Inr (acc @ concat (map (pair_mismatches L df num_tol fuzzy_tol r) mapping))"
  using assms(2)
proof (induction mapping arbitrary: acc)
  case Nil
  then show ?case by simp
next
  case (Cons p mapping)
  obtain lc rc where p: "p = (lc, rc)" by (cases p) auto
  from Cons.prems p have "names_one (df ! r) lc" "names_one (df ! r) rc" by auto
  then obtain lv rv where c: "cell df r lc = Inr (Scalar lv)" "cell df r rc = Inr (Scalar rv)"
    using names_one_cell [OF assms(1)] by blast
  obtain ok why where k: "compare L lv rv num_tol fuzzy_tol = (ok, why)"
    by (cases "compare L lv rv num_tol fuzzy_tol") auto
  have rest: "\<forall>(lc, rc) \<in> set mapping. names_one (df ! r) lc \<and> names_one (df ! r) rc"
    using Cons.prems by simp
  show ?case
    using Cons.IH [OF rest] by (simp add: p c k compare_entries_scalars pair_mismatches_def)
qed

lemma check_rows_resolved:
  assumes "\<forall>r \<in> set rows. resolves df mapping r"
  shows "check_rows L df num_tol fuzzy_tol mapping rows acc
       = Inr (acc @ grid_mismatches L df num_tol fuzzy_tol mapping rows)"
  using assms
proof (induction rows arbitrary: acc)
  case Nil
  then show ?case by (simp add: grid_mismatches_def)
next
  case (Cons r rows)
  have r: "r < length df"
    "\<forall>(lc, rc) \<in> set mapping. names_one (df ! r) lc \<and> names_one (df ! r) rc"
    using Cons.prems by (simp_all add: resolves_def)
  have rest: "\<forall>r \<in> set rows. resolves df mapping r" using Cons.prems by simp
  show ?case
    using Cons.IH [OF rest] by (simp add: check_pairs_resolved [OF r] grid_mismatches_def)
qed

lemma validate_resolved:
  assumes "\<forall>r. start_row \<le> r \<and> r \<le> end_row \<longrightarrow> resolves df mapping r"
  shows "validate L df mapping start_row end_row num_tol fuzzy_tol
       = Inr (grid_mismatches L df num_tol fuzzy_tol mapping [start_row..<end_row + 1],
              (int end_row - int start_row + 1) * int (length mapping))"
proof -
  have "\<forall>r \<in> set [start_row..<end_row + 1]. resolves df mapping r"
    using assms by auto
  from check_rows_resolved [OF this, of L num_tol fuzzy_tol "[]"]
  show ?thesis by (simp add: validate_def)
qed

lemma scenario_resolves:
  "\<forall>r. 0 \<le> r \<and> r \<le> 2 \<longrightarrow> resolves scenario [(''left'', ''right'')] r"
proof (intro allI impI)
  fix r :: nat
  assume "0 \<le> r \<and> r \<le> 2"
  then consider "r = 0" | "r = 1" | "r = 2" by linarith
  then show "resolves scenario [(''left'', ''right'')] r"
  proof cases
    case 1
    then show ?thesis by (simp add: resolves_def scenario_def names_one_def)
  next
    case 2
    then show ?thesis by (simp add: resolves_def scenario_def names_one_def)
  next
    case 3
    then show ?thesis by (simp add: resolves_def scenario_def names_one_def)
  qed
qed

lemma scenario_run:
  "validate text_cells scenario [(''left'', ''right'')] 0 2 float_0_01 float_0_85 = Inr ([bob], 3)"
  by code_simp

text \<open>
  C5. For every table, every row range with \<open>start_row \<le> end_row\<close> whose rows exist,
  and every mapping whose labels each name one column, the run returns, and the total it
  reports is \<open>(end_row - start_row + 1) * len(mapping)\<close>, whatever the mismatches are.
\<close>

theorem total_checks_formula:
  assumes "start_row \<le> end_row"
    and "\<forall>r. start_row \<le> r \<and> r \<le> end_row \<longrightarrow> resolves df mapping r"
  shows "\<exists>mismatches.
           validate L df mapping start_row end_row num_tol fuzzy_tol
             = Inr (mismatches, int ((end_row - start_row + 1) * length mapping))"
proof -
  have "int end_row - int start_row + 1 = int (end_row - start_row + 1)"
    using assms(1) by (simp add: of_nat_diff)
  then have "(int end_row - int start_row + 1) * int (length mapping)
      = int ((end_row - start_row + 1) * length mapping)"
    by (simp only: of_nat_mult)
  then show ?thesis using validate_resolved [OF assms(2), of L num_tol fuzzy_tol] by simp
qed

theorem total_checks_formula_witness:
  "\<exists>mismatches.
     validate text_cells scenario [(''left'', ''right'')] 0 2 float_0_01 float_0_85
       = Inr (mismatches, 3)"
  using total_checks_formula [OF _ scenario_resolves, of text_cells float_0_01 float_0_85]
  by simp










lemma check_pairs_records:
  assumes "check_pairs L df num_tol fuzzy_tol r mapping acc = Inr ms"
  shows "\<exists>new. ms = acc @ new \<and> length new \<le> length mapping
           \<and> (\<forall>m \<in> set new. row m = r \<and> (left_column m, right_column m) \<in> set mapping
                 \<and> cell df r (left_column m) = Inr (left_value m)
                 \<and> cell df r (right_column m) = Inr (right_value m)
                 \<and> compare_entries L (left_value m) (right_value m) num_tol fuzzy_tol
              = Inr (False, reason m))"
  using assms
proof (induction mapping arbitrary: acc)
  case Nil
  then show ?case by simp
next
  case (Cons p mapping)
  obtain lc rc where p: "p = (lc, rc)" by (cases p) auto
  from Cons.prems p obtain lv rv where c: "cell df r lc = Inr lv" "cell df r rc = Inr rv"
    by (auto split: sum.splits)
  from Cons.prems p c obtain ok why where
    k: "compare_entries L lv rv num_tol fuzzy_tol = Inr (ok, why)"
    by (auto split: sum.splits)
  define rec where "rec = \<lparr>row = r, left_column = lc, right_column = rc,
      left_value = lv, right_value = rv, reason = why\<rparr>"
  define this where "this = (if ok then [] else [rec])"
  have "check_pairs L df num_tol fuzzy_tol r mapping (acc @ this) = Inr ms"
    using Cons.prems by (cases ok) (simp_all add: p c k this_def rec_def)
  from Cons.IH [OF this] obtain new where new: "ms = (acc @ this) @ new"
    "length new \<le> length mapping"
    "\<forall>m \<in> set new. row m = r \<and> (left_column m, right_column m) \<in> set mapping
        \<and> cell df r (left_column m) = Inr (left_value m)
        \<and> cell df r (right_column m) = Inr (right_value m)
        \<and> compare_entries L (left_value m) (right_value m) num_tol fuzzy_tol
              = Inr (False, reason m)"
    by blast
  have "ms = acc @ (this @ new)" using new(1) by simp
  moreover have "length (this @ new) \<le> length (p # mapping)"
    using new(2) by (simp add: this_def)
  moreover have "\<forall>m \<in> set (this @ new). row m = r
        \<and> (left_column m, right_column m) \<in> set (p # mapping)
        \<and> cell df r (left_column m) = Inr (left_value m)
        \<and> cell df r (right_column m) = Inr (right_value m)
        \<and> compare_entries L (left_value m) (right_value m) num_tol fuzzy_tol
              = Inr (False, reason m)"
    using new(3) c k by (auto simp: this_def rec_def p)
  ultimately show ?case by blast
qed

lemma check_rows_records:
  assumes "check_rows L df num_tol fuzzy_tol mapping rows acc = Inr ms"
  shows "\<exists>new. ms = acc @ new \<and> length new \<le> length rows * length mapping
           \<and> (\<forall>m \<in> set new. row m \<in> set rows \<and> (left_column m, right_column m) \<in> set mapping
                 \<and> cell df (row m) (left_column m) = Inr (left_value m)
                 \<and> cell df (row m) (right_column m) = Inr (right_value m)
                 \<and> compare_entries L (left_value m) (right_value m) num_tol fuzzy_tol
              = Inr (False, reason m))"
  using assms
proof (induction rows arbitrary: acc)
  case Nil
  then show ?case by simp
next
  case (Cons r rows)
  from Cons.prems obtain mid where mid: "check_pairs L df num_tol fuzzy_tol r mapping acc = Inr mid"
    "check_rows L df num_tol fuzzy_tol mapping rows mid = Inr ms"
    by (auto split: sum.splits)
  from check_pairs_records [OF mid(1)] obtain n1 where n1: "mid = acc @ n1"
    "length n1 \<le> length mapping"
    "\<forall>m \<in> set n1. row m = r \<and> (left_column m, right_column m) \<in> set mapping
        \<and> cell df r (left_column m) = Inr (left_value m)
        \<and> cell df r (right_column m) = Inr (right_value m)
        \<and> compare_entries L (left_value m) (right_value m) num_tol fuzzy_tol
              = Inr (False, reason m)"
    by blast
  from Cons.IH [OF mid(2)] obtain n2 where n2: "ms = mid @ n2"
    "length n2 \<le> length rows * length mapping"
    "\<forall>m \<in> set n2. row m \<in> set rows \<and> (left_column m, right_column m) \<in> set mapping
        \<and> cell df (row m) (left_column m) = Inr (left_value m)
        \<and> cell df (row m) (right_column m) = Inr (right_value m)
        \<and> compare_entries L (left_value m) (right_value m) num_tol fuzzy_tol
              = Inr (False, reason m)"
    by blast
  have "ms = acc @ (n1 @ n2)" using n1(1) n2(1) by simp
  moreover have "length (n1 @ n2) \<le> length (r # rows) * length mapping"
    using n1(2) n2(2) by simp
  moreover have "\<forall>m \<in> set (n1 @ n2). row m \<in> set (r # rows)
        \<and> (left_column m, right_column m) \<in> set mapping
        \<and> cell df (row m) (left_column m) = Inr (left_value m)
        \<and> cell df (row m) (right_column m) = Inr (right_value m)
        \<and> compare_entries L (left_value m) (right_value m) num_tol fuzzy_tol
              = Inr (False, reason m)"
    using n1(3) n2(3) by auto
  ultimately show ?case by blast
qed

text \<open>
  C9, as amended. In the result of a run, every mismatch record has its row in
  \<open>[start_row, end_row]\<close> and its pair of columns in the mapping, and its two values are
  the cells of the table at that row under those columns; and when
  \<open>start_row \<le> end_row + 1\<close> the number of records is at most the total reported. (With
  \<open>end_row + 1 < start_row\<close> the total is negative, and the empty list of records exceeds
  it.)
\<close>

theorem mismatch_records:
  assumes "validate L df mapping start_row end_row num_tol fuzzy_tol = Inr (mismatches, total_checks)"
  shows "(\<forall>m \<in> set mismatches.
            start_row \<le> row m \<and> row m \<le> end_row
            \<and> (left_column m, right_column m) \<in> set mapping
            \<and> cell df (row m) (left_column m) = Inr (left_value m)
            \<and> cell df (row m) (right_column m) = Inr (right_value m))
       \<and> (start_row \<le> end_row + 1 \<longrightarrow> int (length mismatches) \<le> total_checks)"
proof -
  from assms have run: "check_rows L df num_tol fuzzy_tol mapping [start_row..<end_row + 1] [] = Inr mismatches"
    and total_checks: "total_checks = (int end_row - int start_row + 1) * int (length mapping)"
    by (auto simp: validate_def split: sum.splits)
  from check_rows_records [OF run] have
    len: "length mismatches \<le> length [start_row..<end_row + 1] * length mapping"
    and each: "\<forall>m \<in> set mismatches. row m \<in> set [start_row..<end_row + 1]
        \<and> (left_column m, right_column m) \<in> set mapping
        \<and> cell df (row m) (left_column m) = Inr (left_value m)
        \<and> cell df (row m) (right_column m) = Inr (right_value m)
        \<and> compare_entries L (left_value m) (right_value m) num_tol fuzzy_tol
              = Inr (False, reason m)"
    by auto
  have "int (length mismatches) \<le> total_checks" if "start_row \<le> end_row + 1"
  proof -
    have "int (length [start_row..<end_row + 1]) = int end_row - int start_row + 1"
      using that by (simp add: of_nat_diff)
    then have "total_checks = int (length [start_row..<end_row + 1] * length mapping)"
      using total_checks by simp
    then show ?thesis using len by (simp only: of_nat_le_iff)
  qed
  then show ?thesis using each by auto
qed

theorem mismatch_records_witness:
  "validate text_cells scenario [(''left'', ''right'')] 0 2 float_0_01 float_0_85 = Inr ([bob], 3)
   \<and> 0 \<le> row bob \<and> row bob \<le> 2
   \<and> (left_column bob, right_column bob) \<in> set [(''left'', ''right'')]
   \<and> cell scenario (row bob) (left_column bob) = Inr (left_value bob)
   \<and> cell scenario (row bob) (right_column bob) = Inr (right_value bob)
   \<and> int (length [bob]) \<le> 3"
  using mismatch_records [OF scenario_run] scenario_run by auto

theorem mismatch_count_counterexample:
  "validate text_cells scenario [(''left'', ''right'')] 5 2 float_0_01 float_0_85 = Inr ([], - 2)
   \<and> \<not> int (length ([] :: string option mismatch list)) \<le> - 2"
proof -
  have "validate text_cells scenario [(''left'', ''right'')] 5 2 float_0_01 float_0_85 = Inr ([], - 2)"
    by code_simp
  then show ?thesis by simp
qed

subsection \<open>The string comparison\<close>

text \<open>
  C1, as amended. When neither value is absent or a number and the date parser rejects
  at least one of them, \<^verbatim>\<open>compare\<close> trims both texts; if the trimmed texts are equal,
  letter case included, the result is \<open>(True, "string match")\<close>; otherwise the verdict is
  \<^verbatim>\<open>ratio >= fuzzy\<close> for the ratio of the lower-cased trimmed texts, and the reason is
  \<open>"string mismatch"\<close> with that ratio. (Texts that differ in letter case only, as
  \<open>"Apple"\<close> and \<open>"apple"\<close>, take the second way.)
\<close>

theorem compare_text_exact:
  assumes "\<not> isna L a" "\<not> isna L b" "py_float L a = None" "py_float L b = None"
    and "date_parse L (py_str L a) = None \<or> date_parse L (py_str L b) = None"
  shows "compare L a b tol fuzzy =
           (if strip (py_str L a) = strip (py_str L b) then (True, ''string match'')
            else (fge (ratio (lower (strip (py_str L a))) (lower (strip (py_str L b)))) fuzzy,
                  ''string mismatch (''
                    @ fmt2f (ratio (lower (strip (py_str L a))) (lower (strip (py_str L b))))
                    @ '')''))"
  using assms
  by (auto simp: compare_def detect_type_def compare_strings_def Let_def split: option.splits)

theorem compare_text_exact_witness:
  "compare text_cells (Some ''  Apple '') (Some ''Apple'') float_0_01 float_0_85 = (True, ''string match'')
   \<and> compare text_cells (Some ''Bob'') (Some ''Bobby'') float_0_01 float_0_85
        = (False, ''string mismatch (0.75)'')"
proof -
  have a: "\<not> isna text_cells (Some ''  Apple '')" "\<not> isna text_cells (Some ''Apple'')"
    "py_float text_cells (Some ''  Apple '') = None" "py_float text_cells (Some ''Apple'') = None"
    "date_parse text_cells (py_str text_cells (Some ''  Apple '')) = None
       \<or> date_parse text_cells (py_str text_cells (Some ''Apple'')) = None"
    by code_simp+
  have a': "strip (py_str text_cells (Some ''  Apple '')) = strip (py_str text_cells (Some ''Apple''))"
    by code_simp
  have b: "\<not> isna text_cells (Some ''Bob'')" "\<not> isna text_cells (Some ''Bobby'')"
    "py_float text_cells (Some ''Bob'') = None" "py_float text_cells (Some ''Bobby'') = None"
    "date_parse text_cells (py_str text_cells (Some ''Bob'')) = None
       \<or> date_parse text_cells (py_str text_cells (Some ''Bobby'')) = None"
    by code_simp+
  have b': "strip (py_str text_cells (Some ''Bob'')) \<noteq> strip (py_str text_cells (Some ''Bobby''))"
    "fge (ratio (lower (strip (py_str text_cells (Some ''Bob''))))
               (lower (strip (py_str text_cells (Some ''Bobby''))))) float_0_85 = False"
    "fmt2f (ratio (lower (strip (py_str text_cells (Some ''Bob''))))
               (lower (strip (py_str text_cells (Some ''Bobby''))))) = ''0.75''"
    by code_simp+
  show ?thesis
    using compare_text_exact [OF a, of float_0_01 float_0_85] a'
      compare_text_exact [OF b, of float_0_01 float_0_85] b'
    by simp
qed

theorem compare_case_counterexample:
  "lower (strip ''Apple'') = lower (strip ''apple'')
   \<and> compare text_cells (Some ''Apple'') (Some ''apple'') float_0_01 float_0_85
        = (True, ''string mismatch (1.00)'')
   \<and> compare text_cells (Some ''Apple'') (Some ''apple'') float_0_01 float_0_85
        \<noteq> (True, ''string match'')"
proof -
  have 1: "lower (strip ''Apple'') = lower (strip ''apple'')" by code_simp
  have 2: "compare text_cells (Some ''Apple'') (Some ''apple'') float_0_01 float_0_85
        = (True, ''string mismatch (1.00)'')" by code_simp
  show ?thesis using 1 2 by simp
qed

subsection \<open>A string against itself\<close>

lemma run_len_step: "\<not> popular s (s ! j) \<Longrightarrow> run_len s j = prevlen (run_len s) j + 1"
  by (cases j) (simp_all add: prevlen_def)

lemma run_len_le: "run_len s j \<le> j + 1"
  by (induction j) auto

lemma scan_row_append:
  "\<forall>j \<in> set xs. j < bhi \<Longrightarrow>
   scan_row i t blo bhi (xs @ ys) st = scan_row i t blo bhi ys (scan_row i t blo bhi xs st)"
proof (induction xs arbitrary: st)
  case Nil
  then show ?case by simp
next
  case (Cons j xs)
  obtain new bi bj bk where st: "st = (new, (bi, bj, bk))" by (cases st) auto
  from Cons.prems have "j < bhi" "\<forall>j \<in> set xs. j < bhi" by auto
  then show ?case using Cons.IH by (simp add: st Let_def)
qed

lemma scan_row_keep:
  assumes "\<forall>j \<in> set js. blo \<le> j \<and> j < bhi \<and> prevlen t j + 1 \<le> bk"
  shows "scan_row i t blo bhi js (new, (bi, bj, bk))
       = (\<lambda>j. if j \<in> set js then prevlen t j + 1 else new j, (bi, bj, bk))"
  using assms
proof (induction js arbitrary: new)
  case Nil
  then show ?case by simp
next
  case (Cons j js)
  have j: "blo \<le> j" "j < bhi" "prevlen t j + 1 \<le> bk" using Cons.prems by auto
  have rest: "\<forall>j \<in> set js. blo \<le> j \<and> j < bhi \<and> prevlen t j + 1 \<le> bk"
    using Cons.prems by auto
  have "scan_row i t blo bhi (j # js) (new, (bi, bj, bk))
      = scan_row i t blo bhi js (new(j := prevlen t j + 1), (bi, bj, bk))"
    using j by (simp add: prevlen_def Let_def)
  also have "\<dots> = (\<lambda>x. if x \<in> set js then prevlen t x + 1 else (new(j := prevlen t j + 1)) x, (bi, bj, bk))"
    by (rule Cons.IH [OF rest])
  also have "(\<lambda>x. if x \<in> set js then prevlen t x + 1 else (new(j := prevlen t j + 1)) x)
      = (\<lambda>x. if x \<in> set (j # js) then prevlen t x + 1 else new x)"
    by auto
  finally show ?case .
qed

lemma scan_row_cell:
  assumes "blo \<le> i" "i < bhi"
  shows "scan_row i t blo bhi [i] (new, (bi, bj, bk))
       = (new(i := prevlen t i + 1),
          if bk < prevlen t i + 1 then (i - prevlen t i, i - prevlen t i, prevlen t i + 1)
          else (bi, bj, bk))"
  using assms by (simp add: prevlen_def Let_def)

lemma b2j_split:
  assumes "i < length s" "\<not> popular s (s ! i)"
  shows "b2j s (s ! i)
       = filter (\<lambda>j. s ! j = s ! i) [0..<i] @ [i] @ filter (\<lambda>j. s ! j = s ! i) [Suc i..<length s]"
proof -
  have "[0..<length s] = [0..<i] @ [i] @ [Suc i..<length s]"
    using assms(1) upt_add_eq_append [of 0 i "length s - i"] by (simp add: upt_conv_Cons)
  then have "filter (\<lambda>j. s ! j = s ! i) [0..<length s]
      = filter (\<lambda>j. s ! j = s ! i) ([0..<i] @ [i] @ [Suc i..<length s])"
    by simp
  then show ?thesis using assms(2) by (simp add: b2j_def)
qed

lemma prevlen_mono: "(\<And>j. t j \<le> u j) \<Longrightarrow> prevlen t j \<le> prevlen u j"
  by (simp add: prevlen_def)

lemma diag_row:
  assumes inv: "diag_inv s i (t, best)" and i: "i < length s"
  shows "diag_inv s (Suc i) (scan_row i t 0 (length s) (b2j s (s ! i)) (\<lambda>j. 0, best))"
proof -
  obtain bi bj bk where best: "best = (bi, bj, bk)" by (cases best) auto
  from inv best have bij: "bj = bi" and b1: "bi + bk \<le> i"
    and T1: "\<And>j. t j \<le> bk" and T2: "\<And>j. t j \<le> prevlen t i"
    and T4: "\<And>j. t j \<le> run_len s j" and T3: "\<And>j. j < i \<Longrightarrow> run_len s j \<le> bk"
    and T5: "prevlen t i = prevlen (run_len s) i"
    by (auto simp: diag_inv_def)
  show ?thesis
  proof (cases "popular s (s ! i)")
    case True
    then have js: "b2j s (s ! i) = []" by (simp add: b2j_def)
    have r0: "run_len s i = 0" using True by (cases i) simp_all
    have "\<And>j. j < Suc i \<Longrightarrow> run_len s j \<le> bk"
      using T3 r0 less_Suc_eq by auto
    then show ?thesis
      using b1 r0 by (simp add: js best bij diag_inv_def prevlen_def)
  next
    case False
    define n where "n = length s"
    define k where "k = prevlen t i + 1"
    define js1 where "js1 = filter (\<lambda>j. s ! j = s ! i) [0..<i]"
    define js2 where "js2 = filter (\<lambda>j. s ! j = s ! i) [Suc i..<n]"
    define ci where "ci = (if bk < k then i - prevlen t i else bi)"
    define ck where "ck = (if bk < k then k else bk)"
    define f1 where "f1 = (\<lambda>j. if j \<in> set js1 then prevlen t j + 1 else 0)"
    define f2 where "f2 = (\<lambda>j. if j \<in> set js2 then prevlen t j + 1 else (f1(i := k)) j)"
    have split: "b2j s (s ! i) = js1 @ [i] @ js2"
      unfolding js1_def js2_def n_def by (rule b2j_split [OF i False])
    have np: "\<And>j. s ! j = s ! i \<Longrightarrow> run_len s j = prevlen (run_len s) j + 1"
      using False by (simp add: run_len_step)
    have k_run: "k = run_len s i" using np [of i] T5 by (simp add: k_def)
    have pl: "\<And>j. prevlen t j \<le> prevlen (run_len s) j"
      by (rule prevlen_mono) (rule T4)
    have pl2: "\<And>j. prevlen t j \<le> prevlen t i"
    proof -
      fix j
      show "prevlen t j \<le> prevlen t i"
      proof (cases "j = 0")
        case True
        then show ?thesis by (simp add: prevlen_def)
      next
        case False
        then have "prevlen t j = t (j - 1)" by (simp add: prevlen_def)
        then show ?thesis using T2 [of "j - 1"] by simp
      qed
    qed
    have low: "\<forall>j \<in> set js1. 0 \<le> j \<and> j < n \<and> prevlen t j + 1 \<le> bk"
    proof
      fix j assume "j \<in> set js1"
      then have j: "j < i" "s ! j = s ! i" by (auto simp: js1_def)
      have "prevlen t j + 1 \<le> run_len s j" using np [OF j(2)] pl [of j] by simp
      also have "\<dots> \<le> bk" by (rule T3 [OF j(1)])
      finally show "0 \<le> j \<and> j < n \<and> prevlen t j + 1 \<le> bk" using j(1) i by (simp add: n_def)
    qed
    have high: "\<forall>j \<in> set js2. 0 \<le> j \<and> j < n \<and> prevlen t j + 1 \<le> ck"
    proof
      fix j assume "j \<in> set js2"
      then have j: "j < n" by (auto simp: js2_def)
      have "prevlen t j + 1 \<le> k" using pl2 [of j] by (simp add: k_def)
      also have "k \<le> ck" by (simp add: ck_def)
      finally show "0 \<le> j \<and> j < n \<and> prevlen t j + 1 \<le> ck" using j by simp
    qed
    have lt1: "\<forall>j \<in> set js1. j < n" using low by blast
    have lt2: "\<forall>j \<in> set [i]. j < n" using i by (simp add: n_def)
    have "scan_row i t 0 n (js1 @ [i] @ js2) (\<lambda>j. 0, (bi, bi, bk))
        = scan_row i t 0 n ([i] @ js2) (scan_row i t 0 n js1 (\<lambda>j. 0, (bi, bi, bk)))"
      by (rule scan_row_append [OF lt1])
    also have "scan_row i t 0 n js1 (\<lambda>j. 0, (bi, bi, bk)) = (f1, (bi, bi, bk))"
      unfolding f1_def by (rule scan_row_keep [OF low])
    also have "scan_row i t 0 n ([i] @ js2) (f1, (bi, bi, bk))
        = scan_row i t 0 n js2 (scan_row i t 0 n [i] (f1, (bi, bi, bk)))"
      by (rule scan_row_append [OF lt2])
    also have "scan_row i t 0 n [i] (f1, (bi, bi, bk)) = (f1(i := k), (ci, ci, ck))"
      using scan_row_cell [of 0 i n t f1 bi bi bk] i
      by (cases "bk < k") (simp_all add: n_def k_def ci_def ck_def del: scan_row.simps)
    also have "scan_row i t 0 n js2 (f1(i := k), (ci, ci, ck)) = (f2, (ci, ci, ck))"
      unfolding f2_def by (rule scan_row_keep [OF high])
    finally have run: "scan_row i t 0 (length s) (b2j s (s ! i)) (\<lambda>j. 0, best) = (f2, (ci, ci, ck))"
      by (simp add: split best bij n_def)
    have f2: "\<And>j. f2 j = (if j < n \<and> s ! j = s ! i then prevlen t j + 1 else 0)"
      using i by (auto simp: f2_def f1_def js1_def js2_def k_def n_def)
    have pi: "prevlen t i \<le> i"
      using T5 run_len_le [of s "i - 1"] by (cases i) (simp_all add: prevlen_def)
    have c1: "ci + ck \<le> Suc i" using b1 pi by (simp add: ci_def ck_def k_def)
    have c2: "\<And>j. f2 j \<le> ck"
    proof -
      fix j
      consider "j \<in> set js1" | "j \<in> set js2" | "j = i" | "f2 j = 0"
        using f2 [of j] by (auto simp: js1_def js2_def) (metis not_less_iff_gr_or_eq Suc_leI le_eq_less_or_eq)
      then show "f2 j \<le> ck"
      proof cases
        case 1
        then have "prevlen t j + 1 \<le> bk" using low by blast
        moreover have "bk \<le> ck" by (simp add: ck_def)
        ultimately show ?thesis using f2 [of j] by auto
      next
        case 2
        then show ?thesis using high f2 [of j] by auto
      next
        case 3
        then show ?thesis using f2 [of j] by (auto simp: ck_def k_def)
      next
        case 4
        then show ?thesis by simp
      qed
    qed
    have fi: "f2 i = k" using f2 [of i] i by (simp add: k_def n_def)
    have pf: "prevlen f2 (Suc i) = k" using fi by (simp add: prevlen_def)
    have c3: "\<And>j. f2 j \<le> prevlen f2 (Suc i)"
    proof -
      fix j
      have "f2 j \<le> prevlen t j + 1" by (simp add: f2)
      also have "\<dots> \<le> k" using pl2 [of j] by (simp add: k_def)
      finally show "f2 j \<le> prevlen f2 (Suc i)" by (simp add: pf)
    qed
    have c4: "\<And>j. f2 j \<le> run_len s j"
    proof -
      fix j
      show "f2 j \<le> run_len s j"
      proof (cases "j < n \<and> s ! j = s ! i")
        case True
        then have e: "s ! j = s ! i" by simp
        have "f2 j = prevlen t j + 1" using True by (simp add: f2)
        then show ?thesis using np [OF e] pl [of j] by simp
      next
        case False
        then have "f2 j = 0" by (auto simp: f2)
        then show ?thesis by simp
      qed
    qed
    have c5: "\<And>j. j < Suc i \<Longrightarrow> run_len s j \<le> ck"
    proof -
      fix j assume "j < Suc i"
      then consider "j < i" | "j = i" by linarith
      then show "run_len s j \<le> ck"
      proof cases
        case 1
        then show ?thesis using T3 [of j] by (simp add: ck_def)
      next
        case 2
        then show ?thesis using k_run by (simp add: ck_def)
      qed
    qed
    have c6: "prevlen f2 (Suc i) = prevlen (run_len s) (Suc i)"
      using pf k_run by (simp add: prevlen_def)
    show ?thesis
      unfolding run diag_inv_def using c1 c2 c3 c4 c5 c6 by simp
  qed
qed

lemma diag_rows:
  assumes "diag_inv s i st" "[i..<length s] = is" "i \<le> length s"
  shows "diag_inv s (length s) (scan_rows s s 0 (length s) is st)"
  using assms
proof (induction "is" arbitrary: i st)
  case Nil
  then have "i = length s" by auto
  then show ?case using Nil.prems(1) by simp
next
  case (Cons x xs)
  obtain t best where st: "st = (t, best)" by (cases st) auto
  have x: "x = i" "i < length s" "[Suc i..<length s] = xs"
    using Cons.prems(2) by (auto simp: upt_eq_Cons_conv)
  have step: "diag_inv s (Suc i) (scan_row i t 0 (length s) (b2j s (s ! i)) (\<lambda>j. 0, best))"
    using diag_row [OF _ x(2)] Cons.prems(1) st by simp
  have "scan_rows s s 0 (length s) (x # xs) st
      = scan_rows s s 0 (length s) xs (scan_row i t 0 (length s) (b2j s (s ! i)) (\<lambda>j. 0, best))"
    by (simp add: st x(1))
  moreover have "diag_inv s (length s)
      (scan_rows s s 0 (length s) xs (scan_row i t 0 (length s) (b2j s (s ! i)) (\<lambda>j. 0, best)))"
    using Cons.IH [OF step x(3)] x(2) by simp
  ultimately show ?case by simp
qed

lemma extend_left_same: "extend_left s s 0 0 (d, d, k) = (0, 0, k + d)"
proof (induction d arbitrary: k)
  case 0
  then show ?case by (subst extend_left.simps) simp
next
  case (Suc d)
  show ?case using Suc.IH [of "k + 1"] by (subst extend_left.simps) simp
qed

lemma extend_right_same: "m \<le> n \<Longrightarrow> extend_right s s n n (0, 0, m) = (0, 0, n)"
proof (induction "n - m" arbitrary: m)
  case 0
  then show ?case by (subst extend_right.simps) simp
next
  case (Suc d)
  then have "d = n - (m + 1)" "m + 1 \<le> n" "m < n" by simp_all
  from Suc.hyps(1) [OF this(1,2)] this(3) show ?case by (subst extend_right.simps) simp
qed

lemma find_longest_match_same:
  "find_longest_match s s 0 (length s) 0 (length s) = (0, 0, length s)"
proof -
  have "diag_inv s 0 (\<lambda>j. 0, (0, 0, 0))" by (simp add: diag_inv_def prevlen_def)
  from diag_rows [OF this refl]
  have inv: "diag_inv s (length s) (scan_rows s s 0 (length s) [0..<length s] (\<lambda>j. 0, (0, 0, 0)))"
    by simp
  obtain t bi bj bk where r: "scan_rows s s 0 (length s) [0..<length s] (\<lambda>j. 0, (0, 0, 0)) = (t, (bi, bj, bk))"
    by (metis prod_cases3)
  from inv have "bj = bi" "bi + bk \<le> length s" by (simp_all add: r diag_inv_def)
  then show ?thesis
    by (simp add: find_longest_match_def r extend_left_same extend_right_same)
qed

lemma matching_blocks_same:
  "matching_blocks s s 0 (length s) 0 (length s) = (if s = [] then [] else [(0, 0, length s)])"
  by (subst matching_blocks.simps) (simp add: find_longest_match_same)

lemma round_q_same: "0 < k \<Longrightarrow> round_q k k = Fin 1 0"
proof -
  assume k: "0 < k"
  have n: "nrm 4503599627370496 (- 52) = (1, 0)" by code_simp
  have e: "binary_exponent k k = 0" by (simp add: binary_exponent_def)
  have m: "round_half_even (k * 4503599627370496) k = 4503599627370496"
    using k by (simp add: round_half_even_def)
  show ?thesis using k by (simp add: round_q_def Let_def e m n)
qed

lemma ratio_same: "ratio s s = Fin 1 0"
proof (cases "s = []")
  case True
  then show ?thesis by (simp add: ratio_def calculate_ratio_def)
next
  case False
  then have "0 < int (length s) + int (length s)" by simp
  from round_q_same [OF this] False show ?thesis
    by (simp add: ratio_def calculate_ratio_def matching_blocks_same)
qed

lemma fmt2f_one: "fmt2f (Fin 1 0) = ''1.00''"
  by code_simp

text \<open>
  C10. The equality test of the string comparison is on the trimmed texts, before any
  lower-casing. So for two values that reach the string comparison with trimmed texts
  that differ but are equal once lower-cased, and a threshold of at most 1.0, the ratio
  is 1.0 and \<^verbatim>\<open>compare\<close> returns \<open>(True, "string mismatch (1.00)")\<close>.
\<close>

theorem compare_case_only:
  assumes "\<not> isna L a" "\<not> isna L b" "py_float L a = None" "py_float L b = None"
    and "date_parse L (py_str L a) = None \<or> date_parse L (py_str L b) = None"
    and "strip (py_str L a) \<noteq> strip (py_str L b)"
    and "lower (strip (py_str L a)) = lower (strip (py_str L b))"
    and "fle fuzzy (Fin 1 0)"
  shows "compare L a b tol fuzzy = (True, ''string mismatch (1.00)'')"
proof -
  have "compare L a b tol fuzzy = compare_strings (py_str L a) (py_str L b) fuzzy"
    using assms(1-5)
    by (auto simp: compare_def detect_type_def Let_def split: option.splits)
  also have "\<dots> = (fge (Fin 1 0) fuzzy, ''string mismatch ('' @ fmt2f (Fin 1 0) @ '')'')"
    using assms(6,7) by (simp add: compare_strings_def Let_def ratio_same)
  finally show ?thesis using assms(8) by (simp add: fge_def fmt2f_one)
qed

theorem compare_case_only_witness:
  "compare text_cells (Some ''Apple'') (Some '' apple'') float_0_01 float_0_85
     = (True, ''string mismatch (1.00)'')"
proof -
  have h: "\<not> isna text_cells (Some ''Apple'')" "\<not> isna text_cells (Some '' apple'')"
    "py_float text_cells (Some ''Apple'') = None" "py_float text_cells (Some '' apple'') = None"
    "date_parse text_cells (py_str text_cells (Some ''Apple'')) = None
       \<or> date_parse text_cells (py_str text_cells (Some '' apple'')) = None"
    "strip (py_str text_cells (Some ''Apple'')) \<noteq> strip (py_str text_cells (Some '' apple''))"
    "lower (strip (py_str text_cells (Some ''Apple'')))
       = lower (strip (py_str text_cells (Some '' apple'')))"
    "fle float_0_85 (Fin 1 0)"
    by code_simp+
  show ?thesis by (rule compare_case_only [OF h])
qed

subsection \<open>The ratio\<close>

lemma nrm_value:
  "nrm m e = (m', e') \<Longrightarrow> m \<noteq> 0 \<Longrightarrow> e \<le> e' \<and> m = m' * 2 ^ nat (e' - e)"
proof (induction m e rule: nrm.induct)
  case (1 m e)
  show ?case
  proof (cases "even m")
    case True
    then have r: "nrm (m div 2) (e + 1) = (m', e')" using "1.prems" by (subst (asm) nrm.simps) simp
    have nz: "m div 2 \<noteq> 0" using True "1.prems"(2) by auto
    from "1.IH" [OF "1.prems"(2) True r nz]
    have ih: "e + 1 \<le> e'" "m div 2 = m' * 2 ^ nat (e' - (e + 1))" by auto
    have "nat (e' - e) = Suc (nat (e' - (e + 1)))" using ih(1) by simp
    then have "m' * 2 ^ nat (e' - e) = 2 * (m div 2)" using ih(2) by simp
    also have "\<dots> = m" using True by simp
    finally show ?thesis using ih(1) by simp
  next
    case False
    then have "m' = m" "e' = e" using "1.prems" by (subst (asm) nrm.simps; simp)+
    then show ?thesis by simp
  qed
qed

lemma bitlen_mono: "0 < n \<Longrightarrow> n \<le> d \<Longrightarrow> bitlen n \<le> bitlen d"
  by (simp add: bitlen_alt_def floor_mono)

lemma binary_exponent_neg:
  assumes "0 < n" "n < d"
  shows "binary_exponent n d \<le> - 1"
proof -
  have s0: "bitlen n - bitlen d \<le> 0" using bitlen_mono [of n d] assms by simp
  show ?thesis
  proof (cases "bitlen n - bitlen d = 0")
    case True
    then show ?thesis using assms by (simp add: binary_exponent_def)
  next
    case False
    then show ?thesis using s0 by (simp add: binary_exponent_def Let_def)
  qed
qed

lemma round_half_even_le: "round_half_even num den \<le> num div den + 1"
  by (simp add: round_half_even_def Let_def)

lemma round_q_below_one:
  assumes "0 < n" "n < d" "d < 2 ^ 53"
  shows "round_q n d \<noteq> Fin 1 0"
proof -
  define e where "e = max (binary_exponent n d - 52) (- 1074)"
  define P :: int where "P = 2 ^ nat (- e)"
  define m where "m = round_half_even (n * P) d"
  have e: "e \<le> - 53" "- 1074 \<le> e"
    using binary_exponent_neg [OF assms(1,2)] by (simp_all add: e_def)
  then have ne: "nat e = 0" "\<not> 0 \<le> e" by simp_all
  have "(2::int) ^ 53 \<le> 2 ^ nat (- e)" using e by (intro power_increasing) simp_all
  then have P: "d < P" "0 < P" using assms by (simp_all add: P_def)
  have "n * P \<le> (d - 1) * P" using assms P by (intro mult_right_mono) simp_all
  also have "\<dots> = d * P - P" by (simp add: algebra_simps)
  also have "\<dots> < d * P - d" using P by simp
  also have "\<dots> = d * (P - 1)" by (simp add: algebra_simps)
  finally have lt: "n * P < d * (P - 1)" .
  have "n * P div d < P - 1"
  proof (rule ccontr)
    assume "\<not> n * P div d < P - 1"
    then have "P - 1 \<le> n * P div d" by simp
    then have "d * (P - 1) \<le> d * (n * P div d)" using assms by (intro mult_left_mono) simp_all
    also have "\<dots> \<le> n * P"
      using assms pos_mod_sign [of d "n * P"] mult_div_mod_eq [of d "n * P"] by linarith
    finally show False using lt by simp
  qed
  then have m: "m < P" using round_half_even_le [of "n * P" d] by (simp add: m_def)
  have a: "\<bar>n\<bar> = n" "n \<noteq> 0" "\<not> n < 0" using assms by simp_all
  have "round_q n d =
      (let e = max (binary_exponent n d - 52) (- 1074);
           m = round_half_even (n * 2 ^ nat (- e)) (d * 2 ^ nat e)
       in if 0 \<le> e \<and> 2 ^ 1024 \<le> m * 2 ^ nat e then PInf
          else (case nrm m e of (m', e') \<Rightarrow> Fin m' e'))"
    by (simp only: round_q_def a if_False)
  also have "\<dots> = (case nrm m e of (m', e') \<Rightarrow> Fin m' e')"
    unfolding Let_def e_def [symmetric]
    by (simp only: ne P_def [symmetric] m_def [symmetric] power_0 mult_1_right simp_thms if_False)
  finally have res: "round_q n d = (case nrm m e of (m', e') \<Rightarrow> Fin m' e')" .
  show ?thesis
  proof
    assume "round_q n d = Fin 1 0"
    then have n1: "nrm m e = (1, 0)" using res by (cases "nrm m e") simp
    show False
    proof (cases "m = 0")
      case True
      then show ?thesis using n1 by (subst (asm) nrm.simps) simp
    next
      case False
      from nrm_value [OF n1 False] have "m = 2 ^ nat (0 - e)" by simp
      then show ?thesis using m by (simp add: P_def)
    qed
  qed
qed

lemma scan_row_gen:
  assumes "row_bound n blo prev" "row_gen a b i prev" "row_gen a b (Suc i) new"
    and "match_gen a b best" "i = alo + n" "\<forall>j \<in> set js. b ! j = a ! i"
  shows "row_gen a b (Suc i) (fst (scan_row i prev blo bhi js (new, best)))
       \<and> match_gen a b (snd (scan_row i prev blo bhi js (new, best)))"
  using assms(3,4,6)
proof (induction js arbitrary: new best)
  case Nil
  then show ?case by simp
next
  case (Cons j js)
  obtain bi bj bk where best: "best = (bi, bj, bk)" by (cases best) auto
  have rest: "\<forall>j \<in> set js. b ! j = a ! i" using Cons.prems(3) by simp
  show ?case
  proof (cases "j < blo \<or> bhi \<le> j")
    case True
    then show ?thesis using Cons.IH [OF Cons.prems(1,2) rest] Cons.prems(1,2) best by auto
  next
    case False
    define k where "k = (if j = 0 then 0 else prev (j - 1)) + 1"
    define best' where "best' = (if bk < k then (i + 1 - k, j + 1 - k, k) else (bi, bj, bk))"
    have k1: "k \<le> i + 1" using assms(1,5) by (auto simp: k_def row_bound_def le_SucI trans_le_add2)
    have k2: "k \<le> j + 1"
    proof (cases "j = 0")
      case True
      then show ?thesis by (simp add: k_def)
    next
      case nz: False
      have "prev (j - 1) \<le> (j - 1) + 1 - blo" using assms(1) by (auto simp: row_bound_def)
      then show ?thesis using nz by (simp add: k_def)
    qed
    have cellk: "\<And>u. u < k \<Longrightarrow> a ! (i - u) = b ! (j - u)"
    proof -
      fix u assume u: "u < k"
      show "a ! (i - u) = b ! (j - u)"
      proof (cases u)
        case 0
        then show ?thesis using Cons.prems(3) by simp
      next
        case (Suc u')
        then have j0: "j \<noteq> 0" "u' < prev (j - 1)" using u by (auto simp: k_def split: if_splits)
        from assms(2) j0(2) have "a ! (i - Suc u') = b ! (j - 1 - u')"
          by (simp add: row_gen_def)
        then show ?thesis using Suc by simp
      qed
    qed
    have new': "row_gen a b (Suc i) (new(j := k))"
      using Cons.prems(1) cellk by (auto simp: row_gen_def)
    have "match_gen a b (i + 1 - k, j + 1 - k, k)"
      unfolding match_gen_def
    proof (clarsimp)
      fix u assume u: "u < k"
      then have "k - 1 - u < k" by simp
      from cellk [OF this] have c: "a ! (i - (k - 1 - u)) = b ! (j - (k - 1 - u))" .
      have e1: "i - (k - 1 - u) = Suc i - k + u" using u k1 by simp
      have e2: "j - (k - 1 - u) = Suc j - k + u" using u k2 by simp
      from c show "a ! (Suc i - k + u) = b ! (Suc j - k + u)" unfolding e1 e2 .
    qed
    then have best': "match_gen a b best'"
      using Cons.prems(2) best by (simp add: best'_def)
    have eq: "scan_row i prev blo bhi (j # js) (new, best)
        = scan_row i prev blo bhi js (new(j := k), best')"
      using False best by (simp add: k_def Let_def best'_def)
    show ?thesis
      unfolding eq by (rule Cons.IH [OF new' best' rest])
  qed
qed

lemma b2j_nth: "j \<in> set (b2j b c) \<Longrightarrow> b ! j = c"
  by (auto simp: b2j_def split: if_splits)

lemma scan_rows_gen:
  assumes "row_bound n blo t" "row_gen a b (alo + n) t" "in_range alo ahi blo bhi best"
    and "match_gen a b best" "[alo + n..<ahi] = is"
  shows "match_gen a b (snd (scan_rows a b blo bhi is (t, best)))"
  using assms
proof (induction "is" arbitrary: n t best)
  case Nil
  then show ?case by simp
next
  case (Cons i "is")
  have i: "i = alo + n" "i < ahi" "[alo + Suc n..<ahi] = is"
    using Cons.prems(5) by (auto simp: upt_eq_Cons_conv)
  let ?st = "scan_row i t blo bhi (b2j b (a ! i)) (\<lambda>j. 0, best)"
  have z: "row_bound (Suc n) blo (\<lambda>j. 0)" by (simp add: row_bound_def)
  have zg: "row_gen a b (Suc i) (\<lambda>j. 0)" by (simp add: row_gen_def)
  have keys: "\<forall>j \<in> set (b2j b (a ! i)). b ! j = a ! i" by (simp add: b2j_nth)
  have tg: "row_gen a b i t" using Cons.prems(2) i(1) by simp
  have r: "row_bound (Suc n) blo (fst ?st)" "in_range alo ahi blo bhi (snd ?st)"
    using scan_row_bounds [OF Cons.prems(1) z Cons.prems(3) i(1,2)] by auto
  have g: "row_gen a b (Suc i) (fst ?st)" "match_gen a b (snd ?st)"
    using scan_row_gen [OF Cons.prems(1) tg zg Cons.prems(4) i(1) keys] by auto
  have g1: "row_gen a b (alo + Suc n) (fst ?st)" using g(1) i(1) by simp
  have "scan_rows a b blo bhi (i # is) (t, best) = scan_rows a b blo bhi is (fst ?st, snd ?st)"
    by simp
  moreover have "match_gen a b (snd (scan_rows a b blo bhi is (fst ?st, snd ?st)))"
    by (rule Cons.IH [OF r(1) g1 r(2) g(2) i(3)])
  ultimately show ?case by simp
qed

lemma extend_left_gen:
  "match_gen a b x \<Longrightarrow> match_gen a b (extend_left a b alo blo x)"
proof (induction a b alo blo x rule: extend_left.induct)
  case (1 a b alo blo besti bestj bestsize)
  show ?case
  proof (cases "alo < besti \<and> blo < bestj \<and> a ! (besti - 1) = b ! (bestj - 1)")
    case True
    have "match_gen a b (besti - 1, bestj - 1, bestsize + 1)"
      unfolding match_gen_def
    proof (clarsimp)
      fix u assume u: "u < Suc bestsize"
      show "a ! (besti - Suc 0 + u) = b ! (bestj - Suc 0 + u)"
      proof (cases u)
        case 0
        then show ?thesis using True by simp
      next
        case (Suc u')
        then have "a ! (besti + u') = b ! (bestj + u')"
          using "1.prems" u by (simp add: match_gen_def)
        then show ?thesis using Suc True by simp
      qed
    qed
    from "1.IH" [OF True this] True show ?thesis
      by (subst extend_left.simps) simp
  next
    case False
    then show ?thesis using "1.prems" by (subst extend_left.simps) auto
  qed
qed

lemma extend_right_gen:
  "match_gen a b x \<Longrightarrow> match_gen a b (extend_right a b ahi bhi x)"
proof (induction a b ahi bhi x rule: extend_right.induct)
  case (1 a b ahi bhi besti bestj bestsize)
  show ?case
  proof (cases "besti + bestsize < ahi \<and> bestj + bestsize < bhi
         \<and> a ! (besti + bestsize) = b ! (bestj + bestsize)")
    case True
    have "match_gen a b (besti, bestj, bestsize + 1)"
      using "1.prems" True by (auto simp: match_gen_def less_Suc_eq)
    from "1.IH" [OF True this] True show ?thesis
      by (subst extend_right.simps) simp
  next
    case False
    then show ?thesis using "1.prems" by (subst extend_right.simps) auto
  qed
qed

lemma find_longest_match_gen:
  "match_gen a b (find_longest_match a b alo ahi blo bhi)"
proof -
  have z: "row_bound 0 blo (\<lambda>j. 0)" by (simp add: row_bound_def)
  have zg: "row_gen a b (alo + 0) (\<lambda>j. 0)" by (simp add: row_gen_def)
  have i: "in_range alo ahi blo bhi (alo, blo, 0)" by (simp add: in_range_def)
  have m: "match_gen a b (alo, blo, 0)" by (simp add: match_gen_def)
  have "match_gen a b (snd (scan_rows a b blo bhi [alo..<ahi] (\<lambda>j. 0, (alo, blo, 0))))"
    using scan_rows_gen [OF z zg i m refl] by simp
  then show ?thesis
    unfolding find_longest_match_def by (intro extend_right_gen extend_left_gen)
qed

lemma matches_unfold:
  "find_longest_match a b alo ahi blo bhi = (i, j, k) \<Longrightarrow>
   matches a b alo ahi blo bhi =
     (if k = 0 then 0
      else (if alo < i \<and> blo < j then matches a b alo i blo j else 0) + k
           + (if i + k < ahi \<and> j + k < bhi then matches a b (i + k) ahi (j + k) bhi else 0))"
proof -
  assume f: "find_longest_match a b alo ahi blo bhi = (i, j, k)"
  have "matching_blocks a b alo ahi blo bhi =
      (if k = 0 then []
       else (if alo < i \<and> blo < j then matching_blocks a b alo i blo j else [])
            @ [(i, j, k)]
            @ (if i + k < ahi \<and> j + k < bhi then matching_blocks a b (i + k) ahi (j + k) bhi
               else []))"
    by (subst matching_blocks.simps) (simp only: f prod.case)
  then show ?thesis
    unfolding matches_def
    by (cases "k = 0"; cases "alo < i \<and> blo < j"; cases "i + k < ahi \<and> j + k < bhi")
      (simp_all only: if_True if_False map_append sum_list.append list.map sum_list.Cons
        sum_list.Nil prod.case add_0_right add_0_left append_Nil append_Nil2 simp_thms)
qed

lemma matches_tile: "tiles a b alo ahi blo bhi (matches a b alo ahi blo bhi)"
proof (induction a b alo ahi blo bhi rule: matching_blocks.induct)
  case (1 a b alo ahi blo bhi)
  obtain i j k where f: "find_longest_match a b alo ahi blo bhi = (i, j, k)"
    by (metis prod_cases3)
  show ?case
  proof (cases "k = 0")
    case True
    then show ?thesis using matches_unfold [OF f] by (simp add: tiles_def)
  next
    case False
    define lsum where "lsum = (if alo < i \<and> blo < j then matches a b alo i blo j else 0)"
    define rsum where "rsum = (if i + k < ahi \<and> j + k < bhi then matches a b (i + k) ahi (j + k) bhi else 0)"
    have M: "matches a b alo ahi blo bhi = lsum + k + rsum"
      using matches_unfold [OF f] False by (simp add: lsum_def rsum_def)
    have bnd: "alo \<le> i" "i + k \<le> ahi" "blo \<le> j" "j + k \<le> bhi"
      using find_longest_match_size [OF f [symmetric] False] by auto
    have gen: "\<And>u. u < k \<Longrightarrow> a ! (i + u) = b ! (j + u)"
      using find_longest_match_gen [of a b alo ahi blo bhi] by (simp add: f match_gen_def)
    have L: "tiles a b alo i blo j lsum"
    proof (cases "alo < i \<and> blo < j")
      case True
      from "1.IH"(1) [OF f [symmetric] refl False True] True show ?thesis by (simp add: lsum_def)
    next
      case False
      then show ?thesis by (auto simp: lsum_def tiles_def)
    qed
    have R: "tiles a b (i + k) ahi (j + k) bhi rsum"
    proof (cases "i + k < ahi \<and> j + k < bhi")
      case True
      from "1.IH"(2) [OF f [symmetric] refl False True] True show ?thesis by (simp add: rsum_def)
    next
      case False
      then show ?thesis by (auto simp: rsum_def tiles_def)
    qed
    have le: "lsum \<le> i - alo" "lsum \<le> j - blo" "rsum \<le> ahi - (i + k)" "rsum \<le> bhi - (j + k)"
      using L R by (simp_all add: tiles_def)
    have "\<forall>t < ahi - alo. a ! (alo + t) = b ! (blo + t)"
      if full: "lsum + k + rsum = ahi - alo" "lsum + k + rsum = bhi - blo"
    proof (intro allI impI)
      fix t assume t: "t < ahi - alo"
      have eqs: "lsum = i - alo" "lsum = j - blo" "rsum = ahi - (i + k)" "rsum = bhi - (j + k)"
        using full le bnd by linarith+
      have Ls: "\<And>t. t < i - alo \<Longrightarrow> a ! (alo + t) = b ! (blo + t)"
        using L eqs(1,2) by (simp add: tiles_def)
      have Rs: "\<And>t. t < ahi - (i + k) \<Longrightarrow> a ! (i + k + t) = b ! (j + k + t)"
        using R eqs(3,4) by (simp add: tiles_def)
      have ij: "i - alo = j - blo" using eqs(1,2) by simp
      consider "t < i - alo" | "i - alo \<le> t" "t < i - alo + k" | "i - alo + k \<le> t"
        by linarith
      then show "a ! (alo + t) = b ! (blo + t)"
      proof cases
        case 1
        then show ?thesis by (rule Ls)
      next
        case 2
        then have "t - (i - alo) < k" by simp
        from gen [OF this] have c: "a ! (i + (t - (i - alo))) = b ! (j + (t - (i - alo)))" .
        have e1: "i + (t - (i - alo)) = alo + t" using 2 bnd by simp
        have e2: "j + (t - (i - alo)) = blo + t" using 2 bnd ij by simp
        from c show ?thesis unfolding e1 e2 .
      next
        case 3
        then have "t - (i - alo) - k < ahi - (i + k)" using t bnd by simp
        from Rs [OF this]
        have c: "a ! (i + k + (t - (i - alo) - k)) = b ! (j + k + (t - (i - alo) - k))" .
        have e1: "i + k + (t - (i - alo) - k) = alo + t" using 3 bnd by simp
        have e2: "j + k + (t - (i - alo) - k) = blo + t" using 3 bnd ij by simp
        from c show ?thesis unfolding e1 e2 .
      qed
    qed
    then show ?thesis
      unfolding tiles_def M using le bnd by auto
  qed
qed

lemma ratio_one_identical:
  assumes "ratio a b = Fin 1 0" "length a + length b < 2 ^ 53"
  shows "a = b"
proof -
  define m where "m = matches a b 0 (length a) 0 (length b)"
  have t: "tiles a b 0 (length a) 0 (length b) m" unfolding m_def by (rule matches_tile)
  then have le: "m \<le> length a" "m \<le> length b" by (simp_all add: tiles_def)
  have r: "ratio a b = calculate_ratio m (length a + length b)"
    by (simp add: ratio_def m_def matches_def)
  have full: "2 * m = length a + length b"
  proof (rule ccontr)
    assume ne: "2 * m \<noteq> length a + length b"
    then have pos: "length a + length b \<noteq> 0" using le by auto
    then have q: "round_q (2 * int m) (int (length a + length b)) = Fin 1 0"
      using assms(1) r by (simp add: calculate_ratio_def)
    show False
    proof (cases "m = 0")
      case True
      then show ?thesis using q by (simp add: round_q_def)
    next
      case False
      have "2 * int m < int (length a + length b)" using ne le by linarith
      moreover have "int (length a + length b) < 2 ^ 53"
        using assms(2) by (metis of_nat_less_iff of_nat_numeral of_nat_power)
      ultimately show ?thesis using q round_q_below_one [of "2 * int m" "int (length a + length b)"] False
        by simp
    qed
  qed
  then have eq: "m = length a" "m = length b" using le by linarith+
  then have "\<forall>t < length a. a ! t = b ! t" using t by (simp add: tiles_def)
  then show ?thesis using eq by (simp add: nth_equalityI)
qed

text \<open>
  C7, as amended. The ratio is not symmetric: it can depend on the order of the two
  strings. It is 1.0 exactly when the two strings are identical (for strings of less
  than \<open>2 ^ 53\<close> characters together).
\<close>

theorem ratio_one_iff_identical:
  assumes "length a + length b < 2 ^ 53"
  shows "ratio a b = Fin 1 0 \<longleftrightarrow> a = b"
  using ratio_one_identical [OF _ assms] ratio_same by auto

theorem ratio_one_iff_identical_witness:
  "ratio ''apple'' ''apple'' = Fin 1 0 \<and> ratio ''tide'' ''diet'' \<noteq> Fin 1 0"
proof -
  have 1: "length ''apple'' + length ''apple'' < 2 ^ 53" by simp
  have 2: "length ''tide'' + length ''diet'' < 2 ^ 53" by simp
  show ?thesis
    using ratio_one_iff_identical [OF 1] ratio_one_iff_identical [OF 2] by simp
qed

theorem ratio_symmetry_counterexample:
  "ratio ''tide'' ''diet'' = Fin 1 (- 2) \<and> ratio ''diet'' ''tide'' = Fin 1 (- 1)
   \<and> ratio ''tide'' ''diet'' \<noteq> ratio ''diet'' ''tide''
   \<and> compare text_cells (Some ''tide'') (Some ''diet'') float_0_01 (Fin 1 (- 1))
        = (False, ''string mismatch (0.25)'')
   \<and> compare text_cells (Some ''diet'') (Some ''tide'') float_0_01 (Fin 1 (- 1))
        = (True, ''string mismatch (0.50)'')"
proof -
  have 1: "ratio ''tide'' ''diet'' = Fin 1 (- 2)" by code_simp
  have 2: "ratio ''diet'' ''tide'' = Fin 1 (- 1)" by code_simp
  have 3: "compare text_cells (Some ''tide'') (Some ''diet'') float_0_01 (Fin 1 (- 1))
        = (False, ''string mismatch (0.25)'')" by code_simp
  have 4: "compare text_cells (Some ''diet'') (Some ''tide'') float_0_01 (Fin 1 (- 1))
        = (True, ''string mismatch (0.50)'')" by code_simp
  show ?thesis using 1 2 3 4 by simp
qed

end
